theory Spec2Isabelle
  imports Main "HOL-Library.Sublist"
begin

unbundle bit_operations_syntax

section \<open>The selector-based echo server and echo client\<close>

text \<open>
  The two programs of the \<open>selectors\<close> notebook, \<open>selectors_echo_server.py\<close> and
  \<open>selectors_echo_client.py\<close>, are embedded as state-passing functions. Everything the
  operating system decides (which sockets are ready, which bytes a \<open>recv\<close> finds, whether a
  connection still has its peer) is an input: a script, one entry per call of
  \<open>mysel.select\<close>, each entry a list of \<open>(socket, ready events, pending bytes)\<close> for the
  client and of \<open>(socket, ready events, peer connected, pending bytes)\<close> for the server.
\<close>

subsection \<open>Data\<close>

type_synonym chan = nat
type_synonym bytes = string

datatype error = DuplicateRegistration | NotRegistered | NotCallable | NameError | OSError

text \<open>The two callbacks the server stores as \<open>key.data\<close>.\<close>

datatype callback = cb_accept | cb_read

text \<open>
  Modelled from the spec: an interest mask is a set drawn from READABLE and WRITABLE. The
  programs combine and test masks with \<open>|\<close> and \<open>&\<close>, so the two events are the two lowest
  bits of a Python integer, the values the \<open>selectors\<close> module gives \<open>EVENT_READ\<close> and
  \<open>EVENT_WRITE\<close>.
\<close>

definition EVENT_READ :: int where
  "EVENT_READ = 1"

definition EVENT_WRITE :: int where
  "EVENT_WRITE = 2"

text \<open>
  A registration is the triple \<open>(fileobj, events, data)\<close> of a \<open>SelectorKey\<close>; the selector
  maps each registered socket to its interest mask and payload (\<open>None\<close> when the caller
  passed no \<open>data\<close>).
\<close>

type_synonym selector_key = "chan \<times> int \<times> callback option"
type_synonym selector = "chan \<rightharpoonup> (int \<times> callback option)"
type_synonym os_ready = "(chan \<times> int \<times> bytes) list"
type_synonym conn_report = "bool \<times> bytes"
type_synonym server_ready = "(chan \<times> int \<times> conn_report) list"

text \<open>What a program did, in order; \<open>Poll\<close> marks the start of an iteration of the main loop.\<close>

datatype action =
    Poll
  | Accept chan chan
  | Recv chan bytes
  | Sendall chan bytes
  | Modify chan int
  | Close chan

datatype 'a run = Returned 'a | Raised error | Unfinished 'a

record prog_state =
  mysel :: selector
  keep_running :: bool
  closed_socks :: "chan set"
  trace :: "action list"

record server_state = prog_state +
  next_conn :: chan

subsection \<open>The selector\<close>

text \<open>
  The \<open>selectors\<close> module is not part of the repository; the selector is modelled from
  section 4.1 of the spec, one definition per operation.
\<close>

text \<open>
  Modelled from the spec: \<open>register(channel, interest_mask, payload=None)\<close> fails with a
  \<open>DuplicateRegistration\<close> error if the channel is already registered; on success the
  channel is registered with that mask and payload.
\<close>

definition register :: "selector \<Rightarrow> chan \<Rightarrow> int \<Rightarrow> callback option \<Rightarrow> error + selector" where
  "register sel c interest payload =
     (case sel c of
        Some r \<Rightarrow> Inl DuplicateRegistration
      | None \<Rightarrow> Inr (sel(c \<mapsto> (interest, payload))))"

text \<open>
  Modelled from the spec: \<open>modify(channel, interest_mask, payload=None)\<close> fails with
  \<open>NotRegistered\<close> if the channel is absent; otherwise it replaces mask and payload.
\<close>

definition modify :: "selector \<Rightarrow> chan \<Rightarrow> int \<Rightarrow> callback option \<Rightarrow> error + selector" where
  "modify sel c interest payload =
     (case sel c of
        None \<Rightarrow> Inl NotRegistered
      | Some r \<Rightarrow> Inr (sel(c \<mapsto> (interest, payload))))"

text \<open>
  Modelled from the spec: \<open>unregister(channel)\<close> removes the registration and fails with
  \<open>NotRegistered\<close> if the channel is absent.
\<close>

definition unregister :: "selector \<Rightarrow> chan \<Rightarrow> error + selector" where
  "unregister sel c =
     (case sel c of
        None \<Rightarrow> Inl NotRegistered
      | Some r \<Rightarrow> Inr (sel(c := None)))"

text \<open>
  Modelled from the spec: \<open>select(timeout)\<close> returns the ready-list, the registrations that
  are ready for one of their interest events, each with the events observed. It walks what
  the operating system reports and keeps, for each registered channel and at most once per
  channel, the reported events that are in its interest mask; a channel with none of them
  is not in the ready-list. The timeout is real time and has no counterpart here: an empty
  ready-list is a poll that timed out.
\<close>

fun select :: "selector \<Rightarrow> (chan \<times> int \<times> 'io) list \<Rightarrow> (selector_key \<times> int \<times> 'io) list" where
  "select sel [] = []"
| "select sel ((c, m, io) # rest) =
     (case sel c of
        None \<Rightarrow> select sel rest
      | Some (interest, payload) \<Rightarrow>
          if m AND interest = 0 then select sel rest
          else ((c, interest, payload), m AND interest, io) # select (sel(c := None)) rest)"

text \<open>
  Selector calls as data, to speak about sequences of calls on one selector: a sequence runs
  until the first call that fails.
\<close>

datatype sel_call = Register chan int "callback option" | Change chan int "callback option" | Unregister chan

fun sel_apply :: "sel_call \<Rightarrow> selector \<Rightarrow> error + selector" where
  "sel_apply (Register c interest payload) sel = register sel c interest payload"
| "sel_apply (Change c interest payload) sel = modify sel c interest payload"
| "sel_apply (Unregister c) sel = unregister sel c"

fun sel_run :: "sel_call list \<Rightarrow> selector \<Rightarrow> error + selector" where
  "sel_run [] sel = Inr sel"
| "sel_run (call # calls) sel =
     (case sel_apply call sel of Inl e \<Rightarrow> Inl e | Inr sel' \<Rightarrow> sel_run calls sel')"

text \<open>
  Whether a channel is registered, read off the history of successful calls alone: the last
  \<open>register\<close> or \<open>unregister\<close> of the channel decides.
\<close>

fun registered_after :: "sel_call list \<Rightarrow> chan \<Rightarrow> bool \<Rightarrow> bool" where
  "registered_after [] c b = b"
| "registered_after (Register c' interest payload # calls) c b =
     registered_after calls c (if c' = c then True else b)"
| "registered_after (Change c' interest payload # calls) c b = registered_after calls c b"
| "registered_after (Unregister c' # calls) c b =
     registered_after calls c (if c' = c then False else b)"

subsection \<open>Sockets\<close>

text \<open>
  \<open>connection.recv(1024)\<close> returns at most 1024 of the bytes that are pending on the socket;
  it returns the empty byte string when the peer has closed and nothing is pending. The
  calls \<open>recv\<close>, \<open>sendall\<close>, \<open>accept\<close> and \<open>close\<close> are taken to succeed: \<open>sendall\<close> writes
  all of its argument.
\<close>

definition recv :: "nat \<Rightarrow> bytes \<Rightarrow> bytes" where
  "recv bufsize pending = take bufsize pending"

text \<open>
  \<open>connection.getpeername()\<close> returns the peer's address, which the programs only print,
  or raises \<open>OSError\<close> when the socket is no longer connected (the peer has reset the
  connection). Whether the socket still has its peer is the operating system's to say.
\<close>

definition getpeername :: "bool \<Rightarrow> error + unit" where
  "getpeername connected = (if connected then Inr () else Inl OSError)"

subsection \<open>The echo server\<close>

definition server :: chan where
  "server = 0"

text \<open>
  \<open>read(connection, mask)\<close>: first \<open>client_address = connection.getpeername()\<close>, whose
  \<open>OSError\<close> nothing catches; then one \<open>recv\<close>; data is sent back with \<open>sendall\<close>, an empty
  result unregisters and closes the connection and clears \<open>keep_running\<close>. The last argument
  is what the operating system reports for the connection: whether it still has its peer,
  and the bytes pending.
\<close>

definition read :: "server_state \<Rightarrow> chan \<Rightarrow> int \<Rightarrow> conn_report \<Rightarrow> error + server_state" where
  "read st connection mask' report =
     (case getpeername (fst report) of
        Inl e \<Rightarrow> Inl e
      | Inr client_address \<Rightarrow>
          (let data = recv 1024 (snd report);
               st1 = st\<lparr>trace := trace st @ [Recv connection data]\<rparr>
           in if data \<noteq> [] then
                Inr (st1\<lparr>trace := trace st1 @ [Sendall connection data]\<rparr>)
              else
                (case unregister (mysel st1) connection of
                   Inl e \<Rightarrow> Inl e
                 | Inr sel' \<Rightarrow>
                     Inr (st1\<lparr>mysel := sel',
                              closed_socks := insert connection (closed_socks st1),
                              trace := trace st1 @ [Close connection],
                              keep_running := False\<rparr>))))"

text \<open>
  \<open>accept(sock, mask)\<close>: \<open>sock.accept()\<close> creates a socket object that did not exist before
  (sockets are numbered in the order of their creation, \<open>next_conn\<close> being the next number);
  it is registered for read events with \<open>read\<close> as its callback.
\<close>

definition accept :: "server_state \<Rightarrow> chan \<Rightarrow> int \<Rightarrow> error + server_state" where
  "accept st sock mask' =
     (let new_connection = next_conn st;
          st1 = st\<lparr>next_conn := Suc new_connection,
                   trace := trace st @ [Accept sock new_connection]\<rparr>
      in case register (mysel st1) new_connection EVENT_READ (Some cb_read) of
           Inl e \<Rightarrow> Inl e
         | Inr sel' \<Rightarrow> Inr (st1\<lparr>mysel := sel'\<rparr>))"

text \<open>\<open>callback = key.data; callback(key.fileobj, mask)\<close>; calling \<open>None\<close> raises.\<close>

definition dispatch :: "server_state \<Rightarrow> selector_key \<Rightarrow> int \<Rightarrow> conn_report \<Rightarrow> error + server_state" where
  "dispatch st key mask' report =
     (case key of (fileobj, events, data) \<Rightarrow>
        (case data of
           None \<Rightarrow> Inl NotCallable
         | Some cb_accept \<Rightarrow> accept st fileobj mask'
         | Some cb_read \<Rightarrow> read st fileobj mask' report))"

fun server_for :: "(selector_key \<times> int \<times> conn_report) list \<Rightarrow> server_state \<Rightarrow> error + server_state" where
  "server_for [] st = Inr st"
| "server_for ((key, mask', report) # rest) st =
     (case dispatch st key mask' report of
        Inl e \<Rightarrow> Inl e
      | Inr st' \<Rightarrow> server_for rest st')"

text \<open>
  \<open>while keep_running: for key, mask in mysel.select(timeout=1): ...\<close>. The script holds the
  operating system's answer to each \<open>select\<close>; when it is used up with the flag still set
  the loop is \<open>Unfinished\<close>.
\<close>

fun server_while :: "server_ready list \<Rightarrow> server_state \<Rightarrow> server_state run" where
  "server_while [] st = (if keep_running st then Unfinished st else Returned st)"
| "server_while (ready # script) st =
     (if keep_running st then
        (case server_for (select (mysel st) ready) (st\<lparr>trace := trace st @ [Poll]\<rparr>) of
           Inl e \<Rightarrow> Raised e
         | Inr st' \<Rightarrow> server_while script st')
      else Returned st)"

text \<open>The program: \<open>mysel.register(server, selectors.EVENT_READ, accept)\<close>, then the loop.\<close>

definition server_main :: "server_ready list \<Rightarrow> server_state run" where
  "server_main script =
     (case register Map.empty server EVENT_READ (Some cb_accept) of
        Inl e \<Rightarrow> Raised e
      | Inr sel \<Rightarrow>
          server_while script
            \<lparr>mysel = sel, keep_running = True, closed_socks = {}, trace = [],
             next_conn = Suc server\<rparr>)"

text \<open>The server's globals once its listening socket is registered.\<close>

definition server_init :: server_state where
  "server_init = \<lparr>mysel = [server \<mapsto> (EVENT_READ, Some cb_accept)], keep_running = True,
     closed_socks = {}, trace = [], next_conn = Suc server\<rparr>"

subsection \<open>The echo client\<close>

text \<open>The client's globals; \<open>connection\<close> is unbound until the loop body has run once.\<close>

record client_state = prog_state +
  connection :: "chan option"
  outgoing :: "bytes list"
  bytes_sent :: int
  bytes_received :: int

definition sock :: chan where
  "sock = 0"

text \<open>The \<open>if mask & selectors.EVENT_READ:\<close> branch of the client's loop body.\<close>

definition client_read :: "client_state \<Rightarrow> chan \<Rightarrow> bytes \<Rightarrow> client_state" where
  "client_read st conn pending =
     (let data = recv 1024 pending;
          st1 = st\<lparr>trace := trace st @ [Recv conn data]\<rparr>;
          st2 = (if data \<noteq> [] then
                   st1\<lparr>bytes_received := bytes_received st1 + int (length data)\<rparr>
                 else st1)
      in st2\<lparr>keep_running :=
               \<not> (data \<noteq> [] \<or>
                  (bytes_received st2 \<noteq> 0 \<and> bytes_received st2 = bytes_sent st2))\<rparr>)"

text \<open>The \<open>if mask & selectors.EVENT_WRITE:\<close> branch; \<open>outgoing.pop()\<close> takes the last element.\<close>

definition client_write :: "client_state \<Rightarrow> error + client_state" where
  "client_write st =
     (if outgoing st = [] then
        (case modify (mysel st) sock EVENT_READ None of
           Inl e \<Rightarrow> Inl e
         | Inr sel' \<Rightarrow>
             Inr (st\<lparr>mysel := sel', trace := trace st @ [Modify sock EVENT_READ]\<rparr>))
      else
        (let next_msg = last (outgoing st)
         in Inr (st\<lparr>outgoing := butlast (outgoing st),
                    trace := trace st @ [Sendall sock next_msg],
                    bytes_sent := bytes_sent st + int (length next_msg)\<rparr>)))"

text \<open>
  The body of \<open>for key, mask in mysel.select(timeout=1):\<close>, the read branch first. The
  address from \<open>connection.getpeername()\<close> is only printed and the call is left out: the
  server of the demo closes a connection only after the client has closed it.
\<close>

definition client_event :: "client_state \<Rightarrow> selector_key \<Rightarrow> int \<Rightarrow> bytes \<Rightarrow> error + client_state" where
  "client_event st key mask' pending =
     (let conn = fst key;
          st0 = st\<lparr>connection := Some conn\<rparr>;
          st1 = (if mask' AND EVENT_READ \<noteq> 0 then client_read st0 conn pending else st0)
      in if mask' AND EVENT_WRITE \<noteq> 0 then client_write st1 else Inr st1)"

fun client_for :: "(selector_key \<times> int \<times> bytes) list \<Rightarrow> client_state \<Rightarrow> error + client_state" where
  "client_for [] st = Inr st"
| "client_for ((key, mask', pending) # rest) st =
     (case client_event st key mask' pending of
        Inl e \<Rightarrow> Inl e
      | Inr st' \<Rightarrow> client_for rest st')"

fun client_while :: "os_ready list \<Rightarrow> client_state \<Rightarrow> client_state run" where
  "client_while [] st = (if keep_running st then Unfinished st else Returned st)"
| "client_while (ready # script) st =
     (if keep_running st then
        (case client_for (select (mysel st) ready) (st\<lparr>trace := trace st @ [Poll]\<rparr>) of
           Inl e \<Rightarrow> Raised e
         | Inr st' \<Rightarrow> client_while script st')
      else Returned st)"

text \<open>After the loop: \<open>mysel.unregister(connection); connection.close()\<close>.\<close>

definition client_shutdown :: "client_state \<Rightarrow> client_state run" where
  "client_shutdown st =
     (case connection st of
        None \<Rightarrow> Raised NameError
      | Some conn \<Rightarrow>
          (case unregister (mysel st) conn of
             Inl e \<Rightarrow> Raised e
           | Inr sel' \<Rightarrow>
               Returned (st\<lparr>mysel := sel',
                            closed_socks := insert conn (closed_socks st),
                            trace := trace st @ [Close conn]\<rparr>)))"

text \<open>The client's globals before the loop, for a list of messages to send.\<close>

definition client_start :: "selector \<Rightarrow> bytes list \<Rightarrow> client_state" where
  "client_start sel msgs =
     \<lparr>mysel = sel, keep_running = True, closed_socks = {}, trace = [],
      connection = None, outgoing = msgs, bytes_sent = 0, bytes_received = 0\<rparr>"

definition demo_outgoing :: "bytes list" where
  "demo_outgoing = [''It will be repeated.'', ''This is the message.  '']"

definition client_loop :: "bytes list \<Rightarrow> os_ready list \<Rightarrow> client_state run" where
  "client_loop msgs script =
     (case register Map.empty sock (EVENT_READ OR EVENT_WRITE) None of
        Inl e \<Rightarrow> Raised e
      | Inr sel \<Rightarrow> client_while script (client_start sel msgs))"

definition client_main :: "bytes list \<Rightarrow> os_ready list \<Rightarrow> client_state run" where
  "client_main msgs script =
     (case client_loop msgs script of
        Returned st \<Rightarrow> client_shutdown st
      | r \<Rightarrow> r)"

subsection \<open>Reading runs and traces\<close>

text \<open>The state a run has reached: where the loop returned, or where the script ended.\<close>

fun state_of :: "'a run \<Rightarrow> 'a option" where
  "state_of (Returned st) = Some st"
| "state_of (Unfinished st) = Some st"
| "state_of (Raised e) = None"

text \<open>The bytes written to, and read from, one socket, in order.\<close>

fun sent_bytes :: "chan \<Rightarrow> action \<Rightarrow> bytes" where
  "sent_bytes c (Sendall c' d) = (if c' = c then d else [])"
| "sent_bytes c a = []"

fun received_bytes :: "chan \<Rightarrow> action \<Rightarrow> bytes" where
  "received_bytes c (Recv c' d) = (if c' = c then d else [])"
| "received_bytes c a = []"

definition sent_on :: "chan \<Rightarrow> action list \<Rightarrow> bytes" where
  "sent_on c tr = concat (map (sent_bytes c) tr)"

definition received_on :: "chan \<Rightarrow> action list \<Rightarrow> bytes" where
  "received_on c tr = concat (map (received_bytes c) tr)"

text \<open>
  A handler of the server runs for a socket: \<open>read\<close> starts with its \<open>recv\<close>, \<open>accept\<close> with
  its \<open>accept\<close> on the listening socket.
\<close>

fun invoked :: "chan \<Rightarrow> action \<Rightarrow> bool" where
  "invoked c (Recv c' d) = (c' = c)"
| "invoked c (Accept c' n) = (c' = c)"
| "invoked c a = False"

text \<open>The actions of the client's write branch, and the messages it sent.\<close>

fun is_write :: "action \<Rightarrow> bool" where
  "is_write (Sendall c d) = True"
| "is_write (Modify c i) = True"
| "is_write a = False"

fun is_modify :: "action \<Rightarrow> bool" where
  "is_modify (Modify c i) = True"
| "is_modify a = False"

fun sent_msg :: "action \<Rightarrow> bytes list" where
  "sent_msg (Sendall c d) = [d]"
| "sent_msg a = []"

definition sent_msgs :: "action list \<Rightarrow> bytes list" where
  "sent_msgs tr = concat (map sent_msg tr)"

subsection \<open>Invariants\<close>

text \<open>
  A ready-list fits a state when no socket is in it twice and each of its keys is the
  socket's current registration.
\<close>

definition ready_ok :: "(selector_key \<times> int \<times> 'io) list \<Rightarrow> selector \<Rightarrow> bool" where
  "ready_ok rl sel \<longleftrightarrow>
     distinct (map (\<lambda>e. fst (fst e)) rl) \<and>
     (\<forall>e \<in> set rl. sel (fst (fst e)) = Some (snd (fst e)))"

text \<open>At every \<open>recv\<close> of the trace, all that had been received had been sent back.\<close>

definition balanced :: "action list \<Rightarrow> bool" where
  "balanced tr \<longleftrightarrow>
     (\<forall>c. sent_on c tr = received_on c tr) \<and>
     (\<forall>tr' c d. prefix (tr' @ [Recv c d]) tr \<longrightarrow> (\<forall>c'. sent_on c' tr' = received_on c' tr'))"

text \<open>After an empty read on a socket no poll follows and no handler runs for the socket.\<close>

fun eof_final :: "action list \<Rightarrow> bool" where
  "eof_final [] = True"
| "eof_final (Recv c d # tr) =
     ((d = [] \<longrightarrow> Poll \<notin> set tr \<and> \<not> list_ex (invoked c) tr) \<and> eof_final tr)"
| "eof_final (a # tr) = eof_final tr"

definition server_inv :: "server_state \<Rightarrow> bool" where
  "server_inv st \<longleftrightarrow>
     (\<forall>c r. mysel st c = Some r \<longrightarrow> c < next_conn st \<and> snd r \<noteq> None) \<and>
     (\<forall>c. Recv c [] \<in> set (trace st) \<longrightarrow>
        mysel st c = None \<and> c \<in> closed_socks st \<and> c < next_conn st \<and> \<not> keep_running st) \<and>
     eof_final (trace st)"

text \<open>The client's globals once its socket is registered for reading and writing.\<close>

definition client_init :: "bytes list \<Rightarrow> client_state" where
  "client_init msgs = client_start [sock \<mapsto> (EVENT_READ OR EVENT_WRITE, None)] msgs"

text \<open>
  What holds of the client between two events: the messages sent so far, then the queue
  read from its end, make up the initial queue reversed; the write branch has sent
  messages and then, at most once and with the queue empty, switched the registration to
  read-only.
\<close>

definition client_inv :: "bytes list \<Rightarrow> client_state \<Rightarrow> bool" where
  "client_inv msgs st \<longleftrightarrow>
     sent_msgs (trace st) @ rev (outgoing st) = rev msgs \<and>
     filter is_write (trace st) =
       map (Sendall sock) (sent_msgs (trace st)) @ filter is_modify (trace st) \<and>
     (mysel st = [sock \<mapsto> (EVENT_READ OR EVENT_WRITE, None)] \<and> filter is_modify (trace st) = [] \<or>
      mysel st = [sock \<mapsto> (EVENT_READ, None)] \<and>
        filter is_modify (trace st) = [Modify sock EVENT_READ] \<and> outgoing st = []) \<and>
     0 \<le> bytes_sent st \<and> 0 \<le> bytes_received st \<and>
     (keep_running st \<or> connection st = Some sock)"

text \<open>How a later state of the client relates to an earlier one.\<close>

definition client_later :: "client_state \<Rightarrow> client_state \<Rightarrow> bool" where
  "client_later st st' \<longleftrightarrow>
     bytes_sent st \<le> bytes_sent st' \<and> bytes_received st \<le> bytes_received st' \<and>
     (mysel st sock = Some (EVENT_READ, None) \<longrightarrow>
        mysel st' = mysel st \<and> filter is_write (trace st') = filter is_write (trace st))"

text \<open>
  The client's counters against its trace: they are the numbers of bytes written to and
  read from the socket, and while the loop is still running nothing has been received.
\<close>

definition client_counts :: "client_state \<Rightarrow> bool" where
  "client_counts st \<longleftrightarrow>
     bytes_sent st = int (length (sent_on sock (trace st))) \<and>
     bytes_received st = int (length (received_on sock (trace st))) \<and>
     (keep_running st \<longrightarrow> bytes_received st = 0)"

section \<open>Properties\<close>

subsection \<open>The selector\<close>

lemma sel_apply_keeps:
  "sel_apply call sel = Inr sel' \<Longrightarrow> call \<noteq> Unregister c \<Longrightarrow> sel c \<noteq> None \<Longrightarrow> sel' c \<noteq> None"
  by (cases call) (auto simp: register_def modify_def unregister_def split: option.splits if_splits)

lemma sel_run_keeps:
  "sel_run calls sel = Inr sel' \<Longrightarrow> Unregister c \<notin> set calls \<Longrightarrow> sel c \<noteq> None \<Longrightarrow> sel' c \<noteq> None"
proof (induction calls arbitrary: sel)
  case Nil
  then show ?case by simp
next
  case (Cons call calls)
  from Cons.prems(1) obtain s1 where a: "sel_apply call sel = Inr s1" and r: "sel_run calls s1 = Inr sel'"
    by (auto split: sum.splits)
  from Cons.prems(2) have ne: "call \<noteq> Unregister c" and rest: "Unregister c \<notin> set calls"
    by auto
  from sel_apply_keeps [OF a ne Cons.prems(3)] have "s1 c \<noteq> None" .
  from Cons.IH [OF r rest this] show ?case .
qed

lemma sel_apply_registered:
  "sel_apply call sel = Inr sel' \<Longrightarrow>
   registered_after (call # calls) c (sel c \<noteq> None) = registered_after calls c (sel' c \<noteq> None)"
  by (cases call) (auto simp: register_def modify_def unregister_def split: option.splits if_splits)

lemma sel_run_registered:
  "sel_run calls sel = Inr sel' \<Longrightarrow> (sel' c \<noteq> None) = registered_after calls c (sel c \<noteq> None)"
proof (induction calls arbitrary: sel)
  case Nil
  then show ?case by simp
next
  case (Cons call calls)
  from Cons.prems obtain s1 where a: "sel_apply call sel = Inr s1" and r: "sel_run calls s1 = Inr sel'"
    by (auto split: sum.splits)
  from Cons.IH [OF r] sel_apply_registered [OF a, of calls c] show ?case by simp
qed

text \<open>
  Claim C7 (duplicate registration). On the selector as the spec describes it: once
  \<open>register\<close> has succeeded for a channel \<open>c\<close>, and whatever other selector calls succeed
  afterwards, as long as none of them is \<open>unregister\<close> of \<open>c\<close>, a second \<open>register\<close> of \<open>c\<close>
  fails with \<open>DuplicateRegistration\<close>, for every interest mask and payload.
\<close>

theorem register_twice_fails:
  assumes "register sel c interest payload = Inr sel1"
    and "sel_run calls sel1 = Inr sel2"
    and "Unregister c \<notin> set calls"
  shows "register sel2 c interest' payload' = Inl DuplicateRegistration"
proof -
  from assms(1) have "sel1 c \<noteq> None"
    by (auto simp: register_def split: option.splits)
  from sel_run_keeps [OF assms(2) assms(3) this] show ?thesis
    by (auto simp: register_def split: option.splits)
qed

theorem register_twice_fails_witness:
  "\<exists>sel1 sel2.
     register Map.empty 4 EVENT_READ (Some cb_read) = Inr sel1 \<and>
     sel_run [Register 0 EVENT_READ (Some cb_accept), Change 4 3 None, Unregister 0] sel1 = Inr sel2 \<and>
     Unregister 4 \<notin> set [Register 0 EVENT_READ (Some cb_accept), Change 4 3 None, Unregister 0] \<and>
     register sel2 4 EVENT_WRITE None = Inl DuplicateRegistration"
proof -
  obtain sel1 where h1: "register Map.empty 4 EVENT_READ (Some cb_read) = Inr sel1"
    by (simp add: register_def)
  then have s1: "sel1 = [4 \<mapsto> (EVENT_READ, Some cb_read)]"
    by (simp add: register_def)
  obtain sel2 where h2:
    "sel_run [Register 0 EVENT_READ (Some cb_accept), Change 4 3 None, Unregister 0] sel1 = Inr sel2"
    by (simp add: s1 register_def modify_def unregister_def)
  have h3: "Unregister 4 \<notin> set [Register 0 EVENT_READ (Some cb_accept), Change 4 3 None, Unregister 0]"
    by simp
  from register_twice_fails [OF h1 h2 h3, of EVENT_WRITE None] h1 h2 h3 show ?thesis
    by blast
qed

text \<open>
  Claim C8 (unregister of an absent channel). On the selector as the spec describes it,
  starting from a new selector: after any sequence of successful calls that leaves the
  channel \<open>c\<close> not registered (it was never registered, or its last registration was
  followed by an \<open>unregister\<close>), \<open>unregister\<close> of \<open>c\<close> fails with \<open>NotRegistered\<close>.
\<close>

theorem unregister_absent_fails:
  assumes "sel_run calls Map.empty = Inr sel"
    and "\<not> registered_after calls c False"
  shows "unregister sel c = Inl NotRegistered"
proof -
  from sel_run_registered [OF assms(1), of c] have "(sel c \<noteq> None) = registered_after calls c False"
    by simp
  with assms(2) have "sel c = None"
    by blast
  then show ?thesis by (simp add: unregister_def)
qed

theorem unregister_absent_fails_witness:
  "\<exists>sel.
     sel_run [Register 0 EVENT_READ (Some cb_accept), Register 1 EVENT_READ (Some cb_read), Unregister 1]
       Map.empty = Inr sel \<and>
     \<not> registered_after
         [Register 0 EVENT_READ (Some cb_accept), Register 1 EVENT_READ (Some cb_read), Unregister 1] 1 False \<and>
     unregister sel 1 = Inl NotRegistered \<and>
     (\<exists>sel'. unregister sel 0 = Inr sel')"
proof -
  obtain sel where h1:
    "sel_run [Register 0 EVENT_READ (Some cb_accept), Register 1 EVENT_READ (Some cb_read), Unregister 1]
       Map.empty = Inr sel"
    by (simp add: register_def unregister_def)
  then have s: "sel 0 \<noteq> None"
    by (auto simp add: register_def unregister_def)
  have h2: "\<not> registered_after
         [Register 0 EVENT_READ (Some cb_accept), Register 1 EVENT_READ (Some cb_read), Unregister 1] 1 False"
    by simp
  from s have "\<exists>sel'. unregister sel 0 = Inr sel'"
    by (auto simp: unregister_def)
  with unregister_absent_fails [OF h1 h2] h1 h2 show ?thesis
    by blast
qed

subsection \<open>The ready-list\<close>

lemma sent_on_append [simp]: "sent_on c (xs @ ys) = sent_on c xs @ sent_on c ys"
  by (simp add: sent_on_def)

lemma received_on_append [simp]: "received_on c (xs @ ys) = received_on c xs @ received_on c ys"
  by (simp add: received_on_def)

lemma sent_on_simps [simp]:
  "sent_on c [] = []"
  "sent_on c (a # tr) = sent_bytes c a @ sent_on c tr"
  by (simp_all add: sent_on_def)

lemma received_on_simps [simp]:
  "received_on c [] = []"
  "received_on c (a # tr) = received_bytes c a @ received_on c tr"
  by (simp_all add: received_on_def)

text \<open>The selector's ready-list fits the selector it was computed from.\<close>

lemma select_registered:
  "e \<in> set (select sel ready) \<Longrightarrow> sel (fst (fst e)) = Some (snd (fst e))"
proof (induction ready arbitrary: sel)
  case Nil
  then show ?case by simp
next
  case (Cons x rest)
  obtain c m io where x: "x = (c, m, io)" by (cases x)
  show ?case
  proof (cases "sel c")
    case None
    with Cons x show ?thesis by simp
  next
    case (Some r)
    obtain interest payload where r: "r = (interest, payload)" by (cases r)
    show ?thesis
    proof (cases "m AND interest = 0")
      case True
      with Cons x Some r show ?thesis by simp
    next
      case False
      with Cons.prems x Some r
      have "e = ((c, interest, payload), m AND interest, io) \<or> e \<in> set (select (sel(c := None)) rest)"
        by simp
      then show ?thesis
      proof
        assume "e = ((c, interest, payload), m AND interest, io)"
        with Some r show ?thesis by simp
      next
        assume "e \<in> set (select (sel(c := None)) rest)"
        from Cons.IH [OF this] show ?thesis
          by (simp split: if_splits)
      qed
    qed
  qed
qed

lemma select_distinct: "distinct (map (\<lambda>e. fst (fst e)) (select sel ready))"
proof (induction ready arbitrary: sel)
  case Nil
  then show ?case by simp
next
  case (Cons x rest)
  obtain c m io where x: "x = (c, m, io)" by (cases x)
  have notin: "c \<notin> (\<lambda>e. fst (fst e)) ` set (select (sel(c := None)) rest)"
  proof
    assume "c \<in> (\<lambda>e. fst (fst e)) ` set (select (sel(c := None)) rest)"
    then obtain e where "e \<in> set (select (sel(c := None)) rest)" and "fst (fst e) = c"
      by auto
    with select_registered [of e "sel(c := None)" rest] show False by simp
  qed
  show ?case using Cons.IH notin
    by (simp add: x split: option.splits)
qed

lemma select_ready_ok: "ready_ok (select sel ready) sel"
  unfolding ready_ok_def using select_distinct select_registered by blast

subsection \<open>What each handler of the server does\<close>

lemma read_data:
  assumes "read st c m p = Inr st'" and "recv 1024 (snd p) \<noteq> []"
  shows "trace st' = trace st @ [Recv c (recv 1024 (snd p)), Sendall c (recv 1024 (snd p))]"
    and "mysel st' = mysel st" and "keep_running st' = keep_running st"
    and "closed_socks st' = closed_socks st" and "next_conn st' = next_conn st"
  using assms by (auto simp: read_def getpeername_def Let_def split: if_splits)

lemma read_eof:
  assumes "read st c m p = Inr st'" and "recv 1024 (snd p) = []"
  shows "trace st' = trace st @ [Recv c [], Close c]"
    and "mysel st' = (mysel st)(c := None)" and "\<not> keep_running st'"
    and "closed_socks st' = insert c (closed_socks st)" and "next_conn st' = next_conn st"
    and "mysel st c \<noteq> None"
  using assms
  by (auto simp: read_def getpeername_def Let_def unregister_def split: option.splits if_splits)

lemma read_connected:
  assumes "read st c m p = Inr st'"
  shows "fst p"
  using assms by (auto simp: read_def getpeername_def split: if_splits)

lemma read_reset: "\<not> fst p \<Longrightarrow> read st c m p = Inl OSError"
  by (simp add: read_def getpeername_def)

lemma accept_effect:
  assumes "accept st c m = Inr st'"
  shows "trace st' = trace st @ [Accept c (next_conn st)]"
    and "mysel st' = (mysel st)(next_conn st \<mapsto> (EVENT_READ, Some cb_read))"
    and "keep_running st' = keep_running st"
    and "closed_socks st' = closed_socks st" and "next_conn st' = Suc (next_conn st)"
    and "mysel st (next_conn st) = None"
  using assms by (auto simp: accept_def Let_def register_def split: option.splits)

lemma dispatch_cases:
  assumes "dispatch st (c, i, d) m p = Inr st'"
  obtains (accept) "d = Some cb_accept" and "accept st c m = Inr st'"
  | (data) "d = Some cb_read" and "read st c m p = Inr st'" and "recv 1024 (snd p) \<noteq> []"
  | (eof) "d = Some cb_read" and "read st c m p = Inr st'" and "recv 1024 (snd p) = []"
  using assms by (auto simp: dispatch_def split: option.splits callback.splits)

lemma read_succeeds: "fst p \<Longrightarrow> mysel st c \<noteq> None \<Longrightarrow> \<exists>st'. read st c m p = Inr st'"
  by (auto simp: read_def getpeername_def Let_def unregister_def split: option.splits)

lemma accept_succeeds: "mysel st (next_conn st) = None \<Longrightarrow> \<exists>st'. accept st c m = Inr st'"
  by (auto simp: accept_def Let_def register_def split: option.splits)

subsection \<open>Traces\<close>

lemma prefix_snoc2:
  "prefix (p @ [x]) (tr @ [a, b]) \<longleftrightarrow>
     (p = tr @ [a] \<and> x = b) \<or> (p = tr \<and> x = a) \<or> prefix (p @ [x]) tr"
proof -
  have "prefix (p @ [x]) ((tr @ [a]) @ [b]) \<longleftrightarrow>
     (p = tr @ [a] \<and> x = b) \<or> (p = tr \<and> x = a) \<or> prefix (p @ [x]) tr"
    unfolding prefix_snoc by auto
  then show ?thesis by simp
qed

lemma balanced_Nil: "balanced []"
  by (simp add: balanced_def)

lemma balanced_quiet:
  assumes "balanced tr" and "\<And>c d. a \<noteq> Recv c d" and "\<And>c d. a \<noteq> Sendall c d"
  shows "balanced (tr @ [a])"
proof -
  from assms(2,3) have q: "\<And>c. sent_bytes c a = []" "\<And>c. received_bytes c a = []"
    by (cases a; simp)+
  show ?thesis
    using assms(1,2) unfolding balanced_def by (auto simp: q prefix_snoc)
qed

lemma balanced_echo:
  assumes "balanced tr"
  shows "balanced (tr @ [Recv c d, Sendall c d])"
  using assms unfolding balanced_def by (auto simp: prefix_snoc2)

lemma balanced_eof:
  assumes "balanced tr"
  shows "balanced (tr @ [Recv c [], Close c])"
  using assms unfolding balanced_def by (auto simp: prefix_snoc2)

lemma eof_final_append:
  "eof_final (xs @ ys) \<longleftrightarrow>
     eof_final xs \<and> eof_final ys \<and>
     (\<forall>c. Recv c [] \<in> set xs \<longrightarrow> Poll \<notin> set ys \<and> \<not> list_ex (invoked c) ys)"
proof (induction xs rule: eof_final.induct)
  case 1
  show ?case by simp
next
  case (2 c d tr)
  then show ?case by auto
qed auto

subsection \<open>The server's invariant\<close>

lemma ready_ok_tl: "ready_ok (e # rest) sel \<Longrightarrow> ready_ok rest sel"
  by (simp add: ready_ok_def)

lemma ready_ok_headD:
  "ready_ok (((c, r), m, p) # rest) sel \<Longrightarrow> sel c = Some r \<and> (\<forall>e \<in> set rest. fst (fst e) \<noteq> c)"
  by (auto simp: ready_ok_def)

lemma ready_ok_remove:
  "ready_ok (((c, r), m, p) # rest) sel \<Longrightarrow> ready_ok rest (sel(c := None))"
  by (auto simp: ready_ok_def)

lemma ready_ok_add:
  "ready_ok rest sel \<Longrightarrow> sel n = None \<Longrightarrow> ready_ok rest (sel(n \<mapsto> r))"
  by (auto simp: ready_ok_def)

lemma dispatch_succeeds:
  assumes "server_inv st" and "ready_ok ((key, m, p) # rest) (mysel st)" and "fst p"
  shows "\<exists>st'. dispatch st key m p = Inr st'"
proof -
  obtain c i d where key: "key = (c, i, d)" by (cases key)
  from assms(2) key have reg: "mysel st c = Some (i, d)"
    by (simp add: ready_ok_def)
  with assms(1) have d: "d \<noteq> None" and "c < next_conn st"
    by (auto simp: server_inv_def)
  from assms(1) have fresh: "mysel st (next_conn st) = None"
    by (cases "mysel st (next_conn st)") (auto simp: server_inv_def)
  from d obtain cb where cb: "d = Some cb" by auto
  show ?thesis
  proof (cases cb)
    case cb_accept
    with accept_succeeds [OF fresh, of c m] key cb show ?thesis
      by (simp add: dispatch_def)
  next
    case cb_read
    from reg have "mysel st c \<noteq> None" by simp
    from read_succeeds [OF assms(3) this, of m] key cb cb_read show ?thesis
      by (simp add: dispatch_def)
  qed
qed

lemma dispatch_inv:
  assumes d: "dispatch st key m p = Inr st'"
    and inv: "server_inv st" and rl: "ready_ok ((key, m, p) # rest) (mysel st)"
  shows "server_inv st' \<and> ready_ok rest (mysel st')"
proof -
  obtain c i pl where key: "key = (c, i, pl)" by (cases key)
  from rl key have reg: "mysel st c = Some (i, pl)"
    by (simp add: ready_ok_def)
  from inv reg have noeof: "Recv c [] \<notin> set (trace st)"
    by (auto simp: server_inv_def)
  from inv have ef: "eof_final (trace st)"
    by (simp add: server_inv_def)
  have others: "\<forall>c'. Recv c' [] \<in> set (trace st) \<longrightarrow> c \<noteq> c'"
    using noeof by auto
  from inv have i1: "\<And>c r. mysel st c = Some r \<Longrightarrow> c < next_conn st \<and> snd r \<noteq> None"
    unfolding server_inv_def by blast
  from inv have i2: "\<And>c. Recv c [] \<in> set (trace st) \<Longrightarrow>
      mysel st c = None \<and> c \<in> closed_socks st \<and> c < next_conn st \<and> \<not> keep_running st"
    unfolding server_inv_def by blast
  from d key have "dispatch st (c, i, pl) m p = Inr st'" by simp
  then show ?thesis
  proof (cases rule: dispatch_cases)
    case accept
    note eff = accept_effect [OF accept(2)]
    have "eof_final (trace st')"
      using ef others by (simp add: eff(1) eof_final_append)
    moreover have "\<forall>c' r. mysel st' c' = Some r \<longrightarrow> c' < next_conn st' \<and> snd r \<noteq> None"
      by (auto simp: eff dest!: i1 i2)
    moreover have "\<forall>c'. Recv c' [] \<in> set (trace st') \<longrightarrow>
        mysel st' c' = None \<and> c' \<in> closed_socks st' \<and> c' < next_conn st' \<and> \<not> keep_running st'"
      by (auto simp: eff dest!: i1 i2)
    moreover have "ready_ok rest (mysel st')"
      unfolding eff(2) by (rule ready_ok_add [OF ready_ok_tl [OF rl] eff(6)])
    ultimately show ?thesis by (simp add: server_inv_def)
  next
    case data
    note eff = read_data [OF data(2,3)]
    have "eof_final (trace st')"
      using ef others data(3) by (simp add: eff(1) eof_final_append)
    moreover have "\<forall>c' r. mysel st' c' = Some r \<longrightarrow> c' < next_conn st' \<and> snd r \<noteq> None"
      by (auto simp: eff dest!: i1 i2)
    moreover have "\<forall>c'. Recv c' [] \<in> set (trace st') \<longrightarrow>
        mysel st' c' = None \<and> c' \<in> closed_socks st' \<and> c' < next_conn st' \<and> \<not> keep_running st'"
      using data(3) by (auto simp: eff dest!: i1 i2)
    moreover have "ready_ok rest (mysel st')"
      unfolding eff(2) by (rule ready_ok_tl [OF rl])
    ultimately show ?thesis by (simp add: server_inv_def)
  next
    case eof
    note eff = read_eof [OF eof(2,3)]
    from inv reg have lt: "c < next_conn st"
      by (auto simp: server_inv_def)
    have "eof_final (trace st')"
      using ef others by (simp add: eff(1) eof_final_append)
    moreover have "\<forall>c' r. mysel st' c' = Some r \<longrightarrow> c' < next_conn st' \<and> snd r \<noteq> None"
      by (auto simp: eff dest!: i1 i2)
    moreover have "\<forall>c'. Recv c' [] \<in> set (trace st') \<longrightarrow>
        mysel st' c' = None \<and> c' \<in> closed_socks st' \<and> c' < next_conn st' \<and> \<not> keep_running st'"
      using lt eff(3) by (auto simp: eff(1,2,4,5) dest!: i1 i2)
    moreover have "ready_ok rest (mysel st')"
      unfolding eff(2) using rl key by (auto intro: ready_ok_remove)
    ultimately show ?thesis by (simp add: server_inv_def)
  qed
qed

lemma server_for_inv:
  "server_for rl st = Inr st' \<Longrightarrow> server_inv st \<Longrightarrow> ready_ok rl (mysel st) \<Longrightarrow> server_inv st'"
proof (induction rl arbitrary: st)
  case Nil
  then show ?case by simp
next
  case (Cons e rest)
  obtain key m p where e: "e = (key, m, p)" by (cases e)
  from Cons.prems(1) e obtain st1 where d: "dispatch st key m p = Inr st1"
    and r: "server_for rest st1 = Inr st'"
    by (auto split: sum.splits)
  from dispatch_inv [OF d Cons.prems(2)] Cons.prems(3) e
  have "server_inv st1" and "ready_ok rest (mysel st1)" by auto
  from Cons.IH [OF r this] show ?case .
qed

lemma server_for_succeeds:
  "server_inv st \<Longrightarrow> ready_ok rl (mysel st) \<Longrightarrow> list_all (\<lambda>e. fst (snd (snd e))) rl \<Longrightarrow>
   \<exists>st'. server_for rl st = Inr st'"
proof (induction rl arbitrary: st)
  case Nil
  then show ?case by simp
next
  case (Cons e rest)
  obtain key m p where e: "e = (key, m, p)" by (cases e)
  from Cons.prems(3) e have conn: "fst p" and rest: "list_all (\<lambda>e. fst (snd (snd e))) rest"
    by simp_all
  from Cons.prems(2) e have ok: "ready_ok ((key, m, p) # rest) (mysel st)" by simp
  from dispatch_succeeds [OF Cons.prems(1) ok conn]
  obtain st1 where d: "dispatch st key m p = Inr st1" by blast
  from dispatch_inv [OF d Cons.prems(1) ok]
  have "server_inv st1" and "ready_ok rest (mysel st1)" by auto
  from Cons.IH [OF this rest] d e show ?case by simp
qed

lemma server_inv_poll:
  assumes "server_inv st" and "keep_running st"
  shows "server_inv (st\<lparr>trace := trace st @ [Poll]\<rparr>)"
proof -
  from assms have "\<And>c. Recv c [] \<notin> set (trace st)"
    by (auto simp: server_inv_def)
  with assms show ?thesis
    by (auto simp: server_inv_def eof_final_append)
qed

lemma server_while_inv:
  "state_of (server_while script st) = Some st' \<Longrightarrow> server_inv st \<Longrightarrow> server_inv st'"
proof (induction script arbitrary: st)
  case Nil
  then show ?case by (simp split: if_splits)
next
  case (Cons ready script)
  show ?case
  proof (cases "keep_running st")
    case False
    with Cons.prems show ?thesis by simp
  next
    case True
    let ?st0 = "st\<lparr>trace := trace st @ [Poll]\<rparr>"
    from Cons.prems(1) True obtain st1
      where f: "server_for (select (mysel st) ready) ?st0 = Inr st1"
        and w: "state_of (server_while script st1) = Some st'"
      by (auto split: sum.splits)
    have inv0: "server_inv ?st0" by (rule server_inv_poll [OF Cons.prems(2) True])
    have "ready_ok (select (mysel st) ready) (mysel ?st0)"
      by (simp add: select_ready_ok)
    from server_for_inv [OF f inv0 this] have "server_inv st1" .
    from Cons.IH [OF w this] show ?thesis .
  qed
qed

lemma server_main_eq: "server_main script = server_while script server_init"
  by (simp add: server_main_def register_def server_init_def)

lemma server_inv_init: "server_inv server_init"
  by (simp add: server_inv_def server_init_def)

lemma server_main_inv: "state_of (server_main script) = Some st \<Longrightarrow> server_inv st"
  using server_while_inv [OF _ server_inv_init] by (simp add: server_main_eq)

subsection \<open>The echo server\<close>

lemma dispatch_balanced:
  assumes "dispatch st key m p = Inr st'" and "balanced (trace st)"
  shows "balanced (trace st')"
proof -
  obtain c i pl where key: "key = (c, i, pl)" by (cases key)
  from assms(1) key have "dispatch st (c, i, pl) m p = Inr st'" by simp
  then show ?thesis
  proof (cases rule: dispatch_cases)
    case accept
    from accept_effect(1) [OF accept(2)] balanced_quiet [OF assms(2)] show ?thesis by simp
  next
    case data
    from read_data(1) [OF data(2,3)] balanced_echo [OF assms(2)] show ?thesis by simp
  next
    case eof
    from read_eof(1) [OF eof(2,3)] balanced_eof [OF assms(2)] show ?thesis by simp
  qed
qed

lemma server_for_balanced:
  "server_for rl st = Inr st' \<Longrightarrow> balanced (trace st) \<Longrightarrow> balanced (trace st')"
proof (induction rl arbitrary: st)
  case Nil
  then show ?case by simp
next
  case (Cons e rest)
  obtain key m p where e: "e = (key, m, p)" by (cases e)
  from Cons.prems(1) e obtain st1 where d: "dispatch st key m p = Inr st1"
    and r: "server_for rest st1 = Inr st'"
    by (auto split: sum.splits)
  from Cons.IH [OF r dispatch_balanced [OF d Cons.prems(2)]] show ?case .
qed

lemma server_while_balanced:
  "state_of (server_while script st) = Some st' \<Longrightarrow> balanced (trace st) \<Longrightarrow> balanced (trace st')"
proof (induction script arbitrary: st)
  case Nil
  then show ?case by (simp split: if_splits)
next
  case (Cons ready script)
  show ?case
  proof (cases "keep_running st")
    case False
    with Cons.prems show ?thesis by simp
  next
    case True
    let ?st0 = "st\<lparr>trace := trace st @ [Poll]\<rparr>"
    from Cons.prems(1) True obtain st1
      where f: "server_for (select (mysel st) ready) ?st0 = Inr st1"
        and w: "state_of (server_while script st1) = Some st'"
      by (auto split: sum.splits)
    have "balanced (trace ?st0)"
      using balanced_quiet [OF Cons.prems(2), of Poll] by simp
    from Cons.IH [OF w server_for_balanced [OF f this]] show ?thesis .
  qed
qed

lemma server_main_balanced: "state_of (server_main script) = Some st \<Longrightarrow> balanced (trace st)"
  using server_while_balanced [of script server_init st]
  by (simp add: server_main_eq server_init_def balanced_Nil)

lemma server_unfinished_running: "server_while script st = Unfinished st' \<Longrightarrow> keep_running st'"
  by (induction script arbitrary: st) (auto split: if_splits sum.splits)

text \<open>
  Claim C1 (echo fidelity). In every state the server's loop reaches, the bytes it has
  written to a connection are exactly the bytes it has read from that connection, in
  order; this already held at every \<open>recv\<close> of the run, so in particular when the empty
  read (end of file) is observed; and one call of \<open>read\<close> that receives data sends
  exactly that data back on the same connection: it does so whenever the connection still
  has its peer, and every call that returns having received data has done so.
\<close>

theorem echo_fidelity:
  assumes "state_of (server_main script) = Some st"
  shows "sent_on c (trace st) = received_on c (trace st) \<and>
         (\<forall>tr c' d. prefix (tr @ [Recv c' d]) (trace st) \<longrightarrow> sent_on c tr = received_on c tr) \<and>
         (\<forall>st0 m pending. recv 1024 pending \<noteq> [] \<longrightarrow>
            (\<exists>st1. read st0 c m (True, pending) = Inr st1 \<and>
               trace st1 = trace st0 @ [Recv c (recv 1024 pending), Sendall c (recv 1024 pending)])) \<and>
         (\<forall>st0 m report st1. read st0 c m report = Inr st1 \<and> recv 1024 (snd report) \<noteq> [] \<longrightarrow>
            trace st1 = trace st0 @
              [Recv c (recv 1024 (snd report)), Sendall c (recv 1024 (snd report))])"
proof -
  from server_main_balanced [OF assms] have b: "balanced (trace st)" .
  have "sent_on c (trace st) = received_on c (trace st)"
    using b by (simp add: balanced_def)
  moreover have "\<forall>tr c' d. prefix (tr @ [Recv c' d]) (trace st) \<longrightarrow> sent_on c tr = received_on c tr"
    using b unfolding balanced_def by blast
  moreover have "\<forall>st0 m pending. recv 1024 pending \<noteq> [] \<longrightarrow>
            (\<exists>st1. read st0 c m (True, pending) = Inr st1 \<and>
               trace st1 = trace st0 @ [Recv c (recv 1024 pending), Sendall c (recv 1024 pending)])"
    by (simp add: read_def getpeername_def Let_def)
  moreover have "\<forall>st0 m report st1. read st0 c m report = Inr st1 \<and> recv 1024 (snd report) \<noteq> [] \<longrightarrow>
            trace st1 = trace st0 @
              [Recv c (recv 1024 (snd report)), Sendall c (recv 1024 (snd report))]"
    using read_data(1) by blast
  ultimately show ?thesis by blast
qed

text \<open>The equations that evaluate a run on a concrete script.\<close>

lemmas run_defs = server_main_def register_def unregister_def modify_def dispatch_def read_def
  getpeername_def accept_def recv_def server_def EVENT_READ_def EVENT_WRITE_def Let_def

theorem echo_fidelity_witness:
  "\<exists>st. state_of (server_main [[(0, 1, True, [])], [(1, 1, True, ''It will '')], [(1, 1, True, ''be repeated.'')],
           [(1, 1, True, [])]])
          = Some st \<and>
        sent_on 1 (trace st) = ''It will be repeated.'' \<and>
        received_on 1 (trace st) = ''It will be repeated.'' \<and>
        prefix ([Poll, Accept 0 1, Poll, Recv 1 ''It will '', Sendall 1 ''It will '', Poll] @
                [Recv 1 ''be repeated.'']) (trace st) \<and>
        sent_on 1 [Poll, Accept 0 1, Poll, Recv 1 ''It will '', Sendall 1 ''It will '', Poll] = ''It will '' \<and>
        recv 1024 ''be repeated.'' \<noteq> [] \<and>
        (\<exists>st1. read server_init 1 EVENT_READ (True, ''be repeated.'') = Inr st1 \<and>
           trace st1 = trace server_init @ [Recv 1 ''be repeated.'', Sendall 1 ''be repeated.''])"
proof -
  let ?script = "[[(0, 1, True, [])], [(1, 1, True, ''It will '')], [(1, 1, True, ''be repeated.'')],
           [(1, 1, True, [])]]"
  obtain st where run: "server_main ?script = Returned st"
    and tr: "trace st = [Poll, Accept 0 1, Poll, Recv 1 ''It will '', Sendall 1 ''It will '', Poll,
      Recv 1 ''be repeated.'', Sendall 1 ''be repeated.'', Poll, Recv 1 [], Close 1]"
    by (simp add: run_defs)
  from run have h: "state_of (server_main ?script) = Some st" by simp
  have p: "prefix ([Poll, Accept 0 1, Poll, Recv 1 ''It will '', Sendall 1 ''It will '', Poll] @
                [Recv 1 ''be repeated.'']) (trace st)"
    by (simp add: tr)
  have d: "recv 1024 ''be repeated.'' \<noteq> []" "recv 1024 ''be repeated.'' = ''be repeated.''"
    by (simp_all add: recv_def)
  note fact = echo_fidelity [OF h, of 1]
  from fact p have
    "sent_on 1 (trace st) = received_on 1 (trace st)"
    "sent_on 1 [Poll, Accept 0 1, Poll, Recv 1 ''It will '', Sendall 1 ''It will '', Poll] =
     received_on 1 [Poll, Accept 0 1, Poll, Recv 1 ''It will '', Sendall 1 ''It will '', Poll]"
    by blast+
  moreover have "received_on 1 (trace st) = ''It will be repeated.''"
    by (simp add: tr)
  moreover have "received_on 1 [Poll, Accept 0 1, Poll, Recv 1 ''It will '', Sendall 1 ''It will '', Poll] = ''It will ''"
    by simp
  moreover from fact d(1) have "\<exists>st1. read server_init 1 EVENT_READ (True, ''be repeated.'') = Inr st1 \<and>
           trace st1 = trace server_init @
             [Recv 1 (recv 1024 ''be repeated.''), Sendall 1 (recv 1024 ''be repeated.'')]"
    by blast
  ultimately show ?thesis using h p d by auto
qed

lemma eof_final_split:
  "eof_final (tr1 @ Recv c [] # tr2) \<Longrightarrow> Poll \<notin> set tr2 \<and> \<not> list_ex (invoked c) tr2"
  by (simp add: eof_final_append)

lemma server_while_stopped: "\<not> keep_running st \<Longrightarrow> server_while script st = Returned st"
  by (cases script) simp_all

lemma server_while_append:
  "server_while (pre @ post) st =
     (case server_while pre st of Unfinished st1 \<Rightarrow> server_while post st1 | r \<Rightarrow> r)"
proof (induction pre arbitrary: st)
  case Nil
  show ?case by (simp add: server_while_stopped)
next
  case (Cons ready pre)
  then show ?case by (simp split: sum.splits)
qed

text \<open>
  Claim C3 (end of file is terminal). Once a \<open>recv\<close> on a connection has returned no
  bytes, the connection is unregistered and closed, no handler runs for it afterwards and
  no further poll takes place: the loop has returned, whatever the operating system would
  have reported later.
\<close>

theorem eof_terminality:
  assumes "state_of (server_main script) = Some st"
    and "trace st = before @ Recv c [] # after"
  shows "mysel st c = None \<and> c \<in> closed_socks st \<and>
         Poll \<notin> set after \<and> \<not> list_ex (invoked c) after \<and>
         server_main script = Returned st \<and> server_main (script @ later) = Returned st"
proof -
  from server_main_inv [OF assms(1)] have inv: "server_inv st" .
  from assms(2) have "Recv c [] \<in> set (trace st)" by simp
  with inv have a: "mysel st c = None" "c \<in> closed_socks st" "\<not> keep_running st"
    by (auto simp: server_inv_def)
  from inv assms(2) have "eof_final (before @ Recv c [] # after)"
    by (simp add: server_inv_def)
  from eof_final_split [OF this] have b: "Poll \<notin> set after" "\<not> list_ex (invoked c) after"
    by simp_all
  have r: "server_main script = Returned st"
  proof (cases "server_main script")
    case (Returned s)
    with assms(1) show ?thesis by simp
  next
    case (Raised e)
    with assms(1) show ?thesis by simp
  next
    case (Unfinished s)
    with assms(1) have "s = st" by simp
    with Unfinished server_unfinished_running [of script server_init st] a(3) show ?thesis
      by (simp add: server_main_eq)
  qed
  then have "server_main (script @ later) = Returned st"
    by (simp add: server_main_eq server_while_append)
  with a b r show ?thesis by simp
qed

theorem eof_terminality_witness:
  "\<exists>st. state_of (server_main [[(0, 1, True, [])], [(1, 1, True, ''abc'')], [(1, 1, True, []), (0, 1, True, [])]]) = Some st \<and>
        trace st = [Poll, Accept 0 1, Poll, Recv 1 ''abc'', Sendall 1 ''abc'', Poll] @
                   Recv 1 [] # [Close 1, Accept 0 2] \<and>
        mysel st 1 = None \<and> 1 \<in> closed_socks st \<and>
        Poll \<notin> set [Close 1, Accept 0 2] \<and> \<not> list_ex (invoked 1) [Close 1, Accept 0 2] \<and>
        server_main ([[(0, 1, True, [])], [(1, 1, True, ''abc'')], [(1, 1, True, []), (0, 1, True, [])]] @ [[(2, 1, True, ''xyz'')]])
          = Returned st"
proof -
  let ?script = "[[(0, 1, True, [])], [(1, 1, True, ''abc'')], [(1, 1, True, []), (0, 1, True, [])]]"
  obtain st where run: "server_main ?script = Returned st"
    and tr: "trace st = [Poll, Accept 0 1, Poll, Recv 1 ''abc'', Sendall 1 ''abc'', Poll] @
                   Recv 1 [] # [Close 1, Accept 0 2]"
    by (simp add: run_defs)
  from run have h: "state_of (server_main ?script) = Some st" by simp
  from eof_terminality [OF h tr, of "[[(2, 1, True, ''xyz'')]]"] h tr show ?thesis
    by blast
qed

subsection \<open>The echo client\<close>

lemma and_read_write: "(m AND EVENT_READ) AND EVENT_WRITE = 0"
  by (simp add: EVENT_READ_def EVENT_WRITE_def and.assoc)

lemma and_both_read: "(m AND (EVENT_READ OR EVENT_WRITE)) AND EVENT_READ = m AND EVENT_READ"
  by (simp add: EVENT_READ_def EVENT_WRITE_def and.assoc)


lemma both_not_read: "EVENT_READ OR EVENT_WRITE \<noteq> EVENT_READ"
  by (simp add: EVENT_READ_def EVENT_WRITE_def)

lemma sent_msgs_simps [simp]:
  "sent_msgs [] = []"
  "sent_msgs (tr @ tr') = sent_msgs tr @ sent_msgs tr'"
  "sent_msgs (a # tr) = sent_msg a @ sent_msgs tr"
  by (simp_all add: sent_msgs_def)

lemma select_empty: "select Map.empty ready = []"
  by (induction ready) auto

lemma select_single:
  "select [c \<mapsto> (i, d)] ready = [] \<or>
   (\<exists>m p. select [c \<mapsto> (i, d)] ready = [((c, i, d), m AND i, p)] \<and> m AND i \<noteq> 0)"
proof (induction ready)
  case Nil
  show ?case by simp
next
  case (Cons x rest)
  obtain c' m io where x: "x = (c', m, io)" by (cases x)
  show ?case
  proof (cases "c' = c \<and> m AND i \<noteq> 0")
    case True
    then have "select [c \<mapsto> (i, d)] (x # rest) = [((c, i, d), m AND i, io)]"
      by (simp add: x select_empty)
    with True show ?thesis by blast
  next
    case False
    then have eq: "select [c \<mapsto> (i, d)] (x # rest) = select [c \<mapsto> (i, d)] rest"
      by (auto simp: x)
    show ?thesis unfolding eq by (rule Cons.IH)
  qed
qed

text \<open>What the two branches of the loop body do.\<close>

lemma client_read_fields:
  "trace (client_read st conn pending) = trace st @ [Recv conn (recv 1024 pending)]"
  "mysel (client_read st conn pending) = mysel st"
  "outgoing (client_read st conn pending) = outgoing st"
  "connection (client_read st conn pending) = connection st"
  "closed_socks (client_read st conn pending) = closed_socks st"
  "bytes_sent (client_read st conn pending) = bytes_sent st"
  "bytes_received (client_read st conn pending) = bytes_received st + int (length (recv 1024 pending))"
  "keep_running (client_read st conn pending) =
     (\<not> (recv 1024 pending \<noteq> [] \<or>
         (bytes_received st + int (length (recv 1024 pending)) \<noteq> 0 \<and>
          bytes_received st + int (length (recv 1024 pending)) = bytes_sent st)))"
  by (auto simp: client_read_def Let_def)

lemma client_write_send:
  assumes "outgoing st \<noteq> []"
  shows "client_write st =
     Inr (st\<lparr>outgoing := butlast (outgoing st),
             trace := trace st @ [Sendall sock (last (outgoing st))],
             bytes_sent := bytes_sent st + int (length (last (outgoing st)))\<rparr>)"
  using assms by (simp add: client_write_def Let_def)

lemma client_write_switch:
  assumes "outgoing st = []" and "mysel st sock \<noteq> None"
  shows "client_write st =
     Inr (st\<lparr>mysel := (mysel st)(sock \<mapsto> (EVENT_READ, None)),
             trace := trace st @ [Modify sock EVENT_READ]\<rparr>)"
  using assms by (auto simp: client_write_def modify_def split: option.splits)

lemma client_inv_read:
  assumes "client_inv msgs st"
  shows "client_inv msgs (client_read (st\<lparr>connection := Some sock\<rparr>) sock pending)"
  using assms by (auto simp: client_inv_def client_read_fields)

lemma client_inv_conn:
  assumes "client_inv msgs st"
  shows "client_inv msgs (st\<lparr>connection := Some sock\<rparr>)"
  using assms by (auto simp: client_inv_def)

lemma client_inv_write:
  assumes "client_inv msgs st" and "mysel st = [sock \<mapsto> (EVENT_READ OR EVENT_WRITE, None)]"
  shows "\<exists>st'. client_write st = Inr st' \<and> client_inv msgs st'"
proof (cases "outgoing st = []")
  case True
  from assms(2) have reg: "mysel st sock \<noteq> None" by simp
  from assms both_not_read have nomod: "filter is_modify (trace st) = []"
    by (auto simp: client_inv_def dest: fun_cong [where x = sock])
  show ?thesis
    using assms(1) True nomod
    by (simp add: client_write_switch [OF True reg] client_inv_def assms(2))
next
  case False
  then obtain ms x where o: "outgoing st = ms @ [x]"
    by (cases "outgoing st" rule: rev_cases) auto
  from assms both_not_read have nomod: "filter is_modify (trace st) = []"
    by (auto simp: client_inv_def dest: fun_cong [where x = sock])
  show ?thesis
    using assms(1) nomod
    by (simp add: client_write_send [OF False] client_inv_def assms(2) o)
qed

lemma client_later_refl: "client_later st st"
  by (simp add: client_later_def)

lemma client_later_trans: "client_later a b \<Longrightarrow> client_later b c \<Longrightarrow> client_later a c"
  by (auto simp: client_later_def)

lemma client_inv_interest:
  assumes "client_inv msgs st"
  shows "mysel st = [sock \<mapsto> (EVENT_READ OR EVENT_WRITE, None)] \<or> mysel st = [sock \<mapsto> (EVENT_READ, None)]"
  using assms by (auto simp: client_inv_def)

lemma client_write_later:
  assumes "client_write st = Inr st'" and "mysel st sock \<noteq> Some (EVENT_READ, None)"
  shows "client_later st st'"
proof (cases "outgoing st = []")
  case True
  with assms show ?thesis
    by (auto simp: client_write_def client_later_def split: sum.splits)
next
  case False
  from assms(1) show ?thesis
    unfolding client_write_send [OF False] using assms(2) by (auto simp: client_later_def)
qed

lemma client_read_later:
  "client_later st (client_read (st\<lparr>connection := Some c\<rparr>) c pending)"
  by (simp add: client_later_def client_read_fields)

lemma client_conn_later: "client_later st (st\<lparr>connection := Some c\<rparr>)"
  by (simp add: client_later_def)

lemma client_event_readonly:
  assumes inv: "client_inv msgs st" and reg: "mysel st = [sock \<mapsto> (EVENT_READ, None)]"
  shows "\<exists>st'. client_event st (sock, EVENT_READ, None) (m AND EVENT_READ) p = Inr st' \<and>
           client_inv msgs st' \<and> client_later st st'"
proof (cases "m AND EVENT_READ = 0")
  case True
  then have "client_event st (sock, EVENT_READ, None) (m AND EVENT_READ) p =
      Inr (st\<lparr>connection := Some sock\<rparr>)"
    by (simp add: client_event_def EVENT_READ_def EVENT_WRITE_def)
  with client_inv_conn [OF inv] client_conn_later show ?thesis by simp
next
  case False
  then have "(m AND EVENT_READ) AND EVENT_READ \<noteq> 0"
    by (simp add: and.assoc)
  then have "client_event st (sock, EVENT_READ, None) (m AND EVENT_READ) p =
      Inr (client_read (st\<lparr>connection := Some sock\<rparr>) sock p)"
    by (simp add: client_event_def and_read_write Let_def)
  with client_inv_read [OF inv] client_read_later show ?thesis by simp
qed

lemma client_event_both:
  assumes inv: "client_inv msgs st" and reg: "mysel st = [sock \<mapsto> (EVENT_READ OR EVENT_WRITE, None)]"
  shows "\<exists>st'. client_event st (sock, EVENT_READ OR EVENT_WRITE, None) mk p = Inr st' \<and>
           client_inv msgs st' \<and> client_later st st'"
proof -
  let ?st0 = "st\<lparr>connection := Some sock\<rparr>"
  let ?st1 = "if mk AND EVENT_READ \<noteq> 0 then client_read ?st0 sock p else ?st0"
  have inv1: "client_inv msgs ?st1"
    using client_inv_read [OF inv] client_inv_conn [OF inv] by simp
  have later1: "client_later st ?st1"
    using client_read_later client_conn_later by simp
  have reg1: "mysel ?st1 = [sock \<mapsto> (EVENT_READ OR EVENT_WRITE, None)]"
    using reg by (simp add: client_read_fields)
  have ev: "client_event st (sock, EVENT_READ OR EVENT_WRITE, None) mk p =
      (if mk AND EVENT_WRITE \<noteq> 0 then client_write ?st1 else Inr ?st1)"
    by (simp add: client_event_def Let_def)
  show ?thesis
  proof (cases "mk AND EVENT_WRITE \<noteq> 0")
    case False
    with ev inv1 later1 show ?thesis by simp
  next
    case True
    from client_inv_write [OF inv1 reg1] obtain st'
      where w: "client_write ?st1 = Inr st'" and inv': "client_inv msgs st'" by blast
    from reg1 both_not_read have "mysel ?st1 sock \<noteq> Some (EVENT_READ, None)"
      by simp
    from client_write_later [OF w this] later1 have "client_later st st'"
      by (rule client_later_trans [rotated])
    with ev True w inv' show ?thesis by simp
  qed
qed

lemma client_inv_poll:
  "client_inv msgs st \<Longrightarrow> client_inv msgs (st\<lparr>trace := trace st @ [Poll]\<rparr>)"
  by (simp add: client_inv_def)

lemma client_later_poll: "client_later st (st\<lparr>trace := trace st @ [Poll]\<rparr>)"
  by (simp add: client_later_def)

lemma client_iteration:
  assumes inv: "client_inv msgs st"
  shows "\<exists>st'. client_for (select (mysel st) ready) (st\<lparr>trace := trace st @ [Poll]\<rparr>) = Inr st' \<and>
           client_inv msgs st' \<and> client_later st st'"
proof -
  let ?st0 = "st\<lparr>trace := trace st @ [Poll]\<rparr>"
  have inv0: "client_inv msgs ?st0" by (rule client_inv_poll [OF inv])
  from client_inv_interest [OF inv] obtain i
    where reg: "mysel st = [sock \<mapsto> (i, None)]"
      and i: "i = (EVENT_READ OR EVENT_WRITE) \<or> i = EVENT_READ"
    by blast
  from select_single [of sock i None ready] show ?thesis
  proof
    assume "select [sock \<mapsto> (i, None)] ready = []"
    with reg inv0 client_later_poll show ?thesis by simp
  next
    assume "\<exists>m p. select [sock \<mapsto> (i, None)] ready = [((sock, i, None), m AND i, p)] \<and> m AND i \<noteq> 0"
    then obtain m p where sel: "select (mysel st) ready = [((sock, i, None), m AND i, p)]"
      using reg by auto
    have reg0: "mysel ?st0 = [sock \<mapsto> (i, None)]" using reg by simp
    from i have "\<exists>st'. client_event ?st0 (sock, i, None) (m AND i) p = Inr st' \<and>
           client_inv msgs st' \<and> client_later ?st0 st'"
    proof
      assume "i = (EVENT_READ OR EVENT_WRITE)"
      with client_event_both [OF inv0, of "m AND i" p] reg0 show ?thesis by simp
    next
      assume "i = EVENT_READ"
      with client_event_readonly [OF inv0, of m p] reg0 show ?thesis by simp
    qed
    then obtain st' where e: "client_event ?st0 (sock, i, None) (m AND i) p = Inr st'"
      and inv': "client_inv msgs st'" and l: "client_later ?st0 st'" by blast
    from client_later_trans [OF client_later_poll l] have "client_later st st'" .
    with e inv' sel show ?thesis by simp
  qed
qed

lemma client_while_inv:
  assumes "client_inv msgs st"
  shows "\<exists>st'. state_of (client_while script st) = Some st' \<and> client_inv msgs st' \<and> client_later st st'"
  using assms
proof (induction script arbitrary: st)
  case Nil
  then show ?case by (simp add: client_later_refl)
next
  case (Cons ready script)
  show ?case
  proof (cases "keep_running st")
    case False
    with Cons.prems show ?thesis by (simp add: client_later_refl)
  next
    case True
    from client_iteration [OF Cons.prems, of ready] obtain st1
      where f: "client_for (select (mysel st) ready) (st\<lparr>trace := trace st @ [Poll]\<rparr>) = Inr st1"
        and inv1: "client_inv msgs st1" and l1: "client_later st st1" by blast
    from Cons.IH [OF inv1] obtain st'
      where w: "state_of (client_while script st1) = Some st'"
        and inv': "client_inv msgs st'" and l': "client_later st1 st'" by blast
    from client_later_trans [OF l1 l'] have "client_later st st'" .
    with True f w inv' show ?thesis by simp
  qed
qed

lemma client_loop_eq: "client_loop msgs script = client_while script (client_init msgs)"
  by (simp add: client_loop_def client_init_def register_def)

lemma client_inv_init: "client_inv msgs (client_init msgs)"
  by (simp add: client_inv_def client_init_def client_start_def)

lemma client_while_stopped: "\<not> keep_running st \<Longrightarrow> client_while script st = Returned st"
  by (cases script) simp_all

lemma client_while_append:
  "client_while (pre @ post) st =
     (case client_while pre st of Unfinished st1 \<Rightarrow> client_while post st1 | r \<Rightarrow> r)"
proof (induction pre arbitrary: st)
  case Nil
  show ?case by (simp add: client_while_stopped)
next
  case (Cons ready pre)
  then show ?case by (simp split: sum.splits)
qed

lemma client_unfinished_running: "client_while script st = Unfinished st' \<Longrightarrow> keep_running st'"
  by (induction script arbitrary: st) (auto split: if_splits sum.splits)

text \<open>The states of a run and of a longer run of the client.\<close>

lemma client_loop_reaches:
  assumes "state_of (client_loop msgs script) = Some st"
  shows "client_inv msgs st"
  using client_while_inv [OF client_inv_init [of msgs], of script] assms
  by (auto simp: client_loop_eq)

lemma client_loop_later:
  assumes "state_of (client_loop msgs script) = Some st"
    and "state_of (client_loop msgs (script @ later)) = Some st'"
  shows "client_later st st'"
proof (cases "client_loop msgs script")
  case (Returned s)
  with assms show ?thesis
    by (simp add: client_loop_eq client_while_append client_later_refl)
next
  case (Raised e)
  with assms show ?thesis by simp
next
  case (Unfinished s)
  with assms(1) have s: "s = st" by simp
  from client_while_inv [OF client_loop_reaches [OF assms(1)], of later] obtain st2
    where "state_of (client_while later st) = Some st2" and "client_later st st2" by blast
  with assms(2) Unfinished s show ?thesis
    by (simp add: client_loop_eq client_while_append)
qed

text \<open>The equations that evaluate a run of the client on a concrete script.\<close>

lemmas client_run_defs = client_main_def client_loop_def client_start_def client_shutdown_def
  client_event_def client_read_def client_write_def demo_outgoing_def sock_def
  register_def unregister_def modify_def recv_def EVENT_READ_def EVENT_WRITE_def Let_def

lemma client_write_keeps:
  assumes "client_write s = Inr s'"
  shows "keep_running s' = keep_running s" and "bytes_received s' = bytes_received s"
    and "connection s' = connection s" and "closed_socks s' = closed_socks s"
  using assms by (auto simp: client_write_def Let_def split: if_splits sum.splits)

lemma client_write_trace:
  assumes "client_write s = Inr s'"
  shows "\<exists>a. trace s' = trace s @ [a] \<and> is_write a"
  using assms by (auto simp: client_write_def Let_def split: if_splits sum.splits)

lemma client_write_sent:
  assumes "client_write s = Inr s'"
  shows "bytes_sent s' = bytes_sent s + (if outgoing s = [] then 0 else int (length (last (outgoing s))))"
  using assms by (auto simp: client_write_def Let_def split: if_splits sum.splits)










lemma client_event_read_fields:
  assumes "m AND EVENT_READ \<noteq> 0" and "client_event st key m pending = Inr st'"
  shows "bytes_received st' = bytes_received st + int (length (recv 1024 pending))"
    and "keep_running st' =
      (\<not> (recv 1024 pending \<noteq> [] \<or>
          (bytes_received st' \<noteq> 0 \<and> bytes_received st' = bytes_sent st)))"
    and "connection st' = Some (fst key)"
proof -
  let ?s1 = "client_read (st\<lparr>connection := Some (fst key)\<rparr>) (fst key) pending"
  have f: "bytes_received ?s1 = bytes_received st + int (length (recv 1024 pending))"
    "keep_running ?s1 = (\<not> (recv 1024 pending \<noteq> [] \<or>
          (bytes_received ?s1 \<noteq> 0 \<and> bytes_received ?s1 = bytes_sent st)))"
    "connection ?s1 = Some (fst key)"
    by (simp_all add: client_read_fields)
  from assms have "st' = ?s1 \<or> client_write ?s1 = Inr st'"
    by (auto simp: client_event_def Let_def split: if_splits)
  then have k: "bytes_received st' = bytes_received ?s1 \<and> keep_running st' = keep_running ?s1 \<and>
      connection st' = connection ?s1"
    using client_write_keeps by blast
  from k f(1) show "bytes_received st' = bytes_received st + int (length (recv 1024 pending))"
    by simp
  from k f(2) show "keep_running st' =
      (\<not> (recv 1024 pending \<noteq> [] \<or>
          (bytes_received st' \<noteq> 0 \<and> bytes_received st' = bytes_sent st)))"
    by simp
  from k f(3) show "connection st' = Some (fst key)" by simp
qed

text \<open>
  Claim C9 (read before write). When the mask of one event has both \<open>EVENT_READ\<close> and
  \<open>EVENT_WRITE\<close>, the read branch runs first: \<open>bytes_received\<close> grows by the data read and
  \<open>keep_running\<close> is computed with \<open>bytes_sent\<close> as it was before the event, although the
  write branch of the same event then adds the length of the message it sends; in the
  trace the \<open>recv\<close> stands before the action of the write branch.
\<close>

theorem read_before_write:
  assumes "m AND EVENT_READ \<noteq> 0" and "m AND EVENT_WRITE \<noteq> 0"
    and "client_event st key m pending = Inr st'"
  shows "bytes_received st' = bytes_received st + int (length (recv 1024 pending)) \<and>
         keep_running st' =
           (\<not> (recv 1024 pending \<noteq> [] \<or>
               (bytes_received st' \<noteq> 0 \<and> bytes_received st' = bytes_sent st))) \<and>
         bytes_sent st' =
           bytes_sent st + (if outgoing st = [] then 0 else int (length (last (outgoing st)))) \<and>
         (\<exists>a. trace st' = trace st @ [Recv (fst key) (recv 1024 pending), a] \<and> is_write a)"
proof -
  let ?s1 = "client_read (st\<lparr>connection := Some (fst key)\<rparr>) (fst key) pending"
  from assms have w: "client_write ?s1 = Inr st'"
    by (simp add: client_event_def Let_def)
  from client_write_sent [OF w]
  have "bytes_sent st' =
           bytes_sent st + (if outgoing st = [] then 0 else int (length (last (outgoing st))))"
    by (simp add: client_read_fields)
  moreover from client_write_trace [OF w]
  have "\<exists>a. trace st' = trace st @ [Recv (fst key) (recv 1024 pending), a] \<and> is_write a"
    by (simp add: client_read_fields)
  ultimately show ?thesis
    using client_event_read_fields(1,2) [OF assms(1,3)] by blast
qed

theorem read_before_write_witness:
  "\<exists>st st'.
     client_loop demo_outgoing [[(0, 2, [])]] = Unfinished st \<and>
     (3::int) AND EVENT_READ \<noteq> 0 \<and> (3::int) AND EVENT_WRITE \<noteq> 0 \<and>
     client_event st (sock, 3, None) 3 ''This is the message.  '' = Inr st' \<and>
     bytes_sent st = 22 \<and> bytes_received st' = 22 \<and> bytes_sent st' = 42 \<and>
     \<not> keep_running st' \<and>
     trace st' = trace st @ [Recv sock ''This is the message.  '', Sendall sock ''It will be repeated.'']"
proof -
  obtain st where run: "client_loop demo_outgoing [[(0, 2, [])]] = Unfinished st"
    and f: "bytes_sent st = 22" "bytes_received st = 0" "outgoing st = [''It will be repeated.'']"
    by (simp add: client_run_defs)
  have m: "(3::int) AND EVENT_READ \<noteq> 0" "(3::int) AND EVENT_WRITE \<noteq> 0"
    by (simp_all add: EVENT_READ_def EVENT_WRITE_def)
  obtain st' where e: "client_event st (sock, 3, None) 3 ''This is the message.  '' = Inr st'"
    and tr: "trace st' = trace st @ [Recv sock ''This is the message.  '', Sendall sock ''It will be repeated.'']"
    using f(3) by (simp add: client_event_def client_read_def client_write_def Let_def recv_def
        EVENT_READ_def EVENT_WRITE_def)
  from read_before_write [OF m e] f
  have "bytes_received st' = 22 \<and> bytes_sent st' = 42 \<and> \<not> keep_running st'"
    by (simp add: recv_def)
  with run m e f tr show ?thesis by blast
qed

lemma client_event_counters:
  assumes e: "client_event s key m p = Inr s'"
  shows "(bytes_sent s' = bytes_sent s \<or>
          outgoing s \<noteq> [] \<and> bytes_sent s' = bytes_sent s + int (length (last (outgoing s)))) \<and>
         (bytes_received s' = bytes_received s \<or>
          bytes_received s' = bytes_received s + int (length (recv 1024 p)))"
proof -
  define s1 where "s1 =
    (if m AND EVENT_READ \<noteq> 0 then client_read (s\<lparr>connection := Some (fst key)\<rparr>) (fst key) p
     else s\<lparr>connection := Some (fst key)\<rparr>)"
  have a: "bytes_sent s1 = bytes_sent s" and b: "outgoing s1 = outgoing s"
    and c: "bytes_received s1 = bytes_received s \<or>
       bytes_received s1 = bytes_received s + int (length (recv 1024 p))"
    by (simp_all add: s1_def client_read_fields)
  from e have "s' = s1 \<or> client_write s1 = Inr s'"
    by (auto simp: client_event_def Let_def s1_def split: if_splits)
  then show ?thesis
  proof
    assume "s' = s1"
    with a c show ?thesis by simp
  next
    assume w: "client_write s1 = Inr s'"
    have "bytes_received s' = bytes_received s1"
      by (rule client_write_keeps(2) [OF w])
    moreover have "bytes_sent s' =
        bytes_sent s + (if outgoing s = [] then 0 else int (length (last (outgoing s))))"
      using client_write_sent [OF w] a b by simp
    ultimately show ?thesis using c by (cases "outgoing s = []") simp_all
  qed
qed

text \<open>
  Claim C10 (the counters never decrease). Both counters start at zero; in every state of
  a run they are non-negative and at most what they are in any later state of the run;
  one event leaves \<open>bytes_sent\<close> unchanged or adds the length of the message sent, and
  leaves \<open>bytes_received\<close> unchanged or adds the length of the data received; the shutdown
  after the loop changes neither.
\<close>

theorem counters_monotone:
  assumes "state_of (client_loop msgs script) = Some st"
    and "state_of (client_loop msgs (script @ later)) = Some st'"
  shows "(\<exists>st0. client_loop msgs [] = Unfinished st0 \<and> bytes_sent st0 = 0 \<and> bytes_received st0 = 0) \<and>
         0 \<le> bytes_sent st \<and> bytes_sent st \<le> bytes_sent st' \<and>
         0 \<le> bytes_received st \<and> bytes_received st \<le> bytes_received st' \<and>
         (\<forall>s key m p s'. client_event s key m p = Inr s' \<longrightarrow>
            (bytes_sent s' = bytes_sent s \<or>
             outgoing s \<noteq> [] \<and> bytes_sent s' = bytes_sent s + int (length (last (outgoing s)))) \<and>
            (bytes_received s' = bytes_received s \<or>
             bytes_received s' = bytes_received s + int (length (recv 1024 p)))) \<and>
         (\<forall>s s'. client_shutdown s = Returned s' \<longrightarrow>
            bytes_sent s' = bytes_sent s \<and> bytes_received s' = bytes_received s)"
proof -
  from client_loop_reaches [OF assms(1)] have inv: "client_inv msgs st" .
  from client_loop_later [OF assms] have later: "client_later st st'" .
  have init: "\<exists>st0. client_loop msgs [] = Unfinished st0 \<and> bytes_sent st0 = 0 \<and> bytes_received st0 = 0"
    by (simp add: client_loop_eq client_init_def client_start_def)
  have run: "0 \<le> bytes_sent st \<and> bytes_sent st \<le> bytes_sent st' \<and>
         0 \<le> bytes_received st \<and> bytes_received st \<le> bytes_received st'"
    using inv later by (simp add: client_inv_def client_later_def)
  have sh: "\<forall>s s'. client_shutdown s = Returned s' \<longrightarrow>
            bytes_sent s' = bytes_sent s \<and> bytes_received s' = bytes_received s"
    by (auto simp: client_shutdown_def split: option.splits sum.splits)
  from init run sh show ?thesis
    using client_event_counters by (intro conjI allI impI) auto
qed

theorem counters_monotone_witness:
  "\<exists>st st' s1 s2.
     state_of (client_loop demo_outgoing [[(0, 2, [])]]) = Some st \<and>
     state_of (client_loop demo_outgoing ([[(0, 2, [])]] @ [[(0, 3, ''This is the message.  '')]]))
       = Some st' \<and>
     bytes_sent st = 22 \<and> bytes_received st = 0 \<and> bytes_sent st' = 42 \<and> bytes_received st' = 22 \<and>
     0 \<le> bytes_sent st \<and> bytes_sent st \<le> bytes_sent st' \<and>
     0 \<le> bytes_received st \<and> bytes_received st \<le> bytes_received st' \<and>
     client_event st (sock, 3, None) 3 ''abc'' = Inr s1 \<and>
     bytes_sent s1 = bytes_sent st + int (length (last (outgoing st))) \<and>
     bytes_received s1 = bytes_received st + int (length (recv 1024 ''abc'')) \<and>
     client_shutdown st' = Returned s2 \<and>
     bytes_sent s2 = bytes_sent st' \<and> bytes_received s2 = bytes_received st'"
proof -
  obtain st where run: "client_loop demo_outgoing [[(0, 2, [])]] = Unfinished st"
    and f: "bytes_sent st = 22" "bytes_received st = 0" "outgoing st = [''It will be repeated.'']"
    by (simp add: client_run_defs)
  obtain st' where run': "client_loop demo_outgoing ([[(0, 2, [])]] @ [[(0, 3, ''This is the message.  '')]])
      = Returned st'"
    and f': "bytes_sent st' = 42" "bytes_received st' = 22"
      "connection st' = Some sock" "mysel st' sock \<noteq> None"
    by (simp add: client_run_defs)
  obtain s1 where e: "client_event st (sock, 3, None) 3 ''abc'' = Inr s1"
    and g: "bytes_sent s1 = 42" "bytes_received s1 = 3"
    using f by (simp add: client_event_def client_read_def client_write_def Let_def recv_def
        EVENT_READ_def EVENT_WRITE_def)
  obtain s2 where sh: "client_shutdown st' = Returned s2"
    using f'(3,4) by (auto simp: client_shutdown_def unregister_def)
  from run have h1: "state_of (client_loop demo_outgoing [[(0, 2, [])]]) = Some st" by simp
  from run' have h2: "state_of (client_loop demo_outgoing
      ([[(0, 2, [])]] @ [[(0, 3, ''This is the message.  '')]])) = Some st'" by simp
  note fact = counters_monotone [OF h1 h2]
  from fact
  have a: "0 \<le> bytes_sent st \<and> bytes_sent st \<le> bytes_sent st' \<and>
     0 \<le> bytes_received st \<and> bytes_received st \<le> bytes_received st'"
    by blast
  from fact sh have b: "bytes_sent s2 = bytes_sent st' \<and> bytes_received s2 = bytes_received st'"
    by blast
  from fact e have "(bytes_sent s1 = bytes_sent st \<or>
       outgoing st \<noteq> [] \<and> bytes_sent s1 = bytes_sent st + int (length (last (outgoing st)))) \<and>
      (bytes_received s1 = bytes_received st \<or>
       bytes_received s1 = bytes_received st + int (length (recv 1024 ''abc'')))"
    by blast
  with f g have c: "bytes_sent s1 = bytes_sent st + int (length (last (outgoing st))) \<and>
     bytes_received s1 = bytes_received st + int (length (recv 1024 ''abc''))"
    by (auto simp: recv_def)
  from a b c h1 h2 f(1,2) f'(1,2) e sh show ?thesis by blast
qed

text \<open>
  Claim C2 (the client's stop condition), evaluated on two runs of the demo client. In
  the first the client has sent both messages (42 bytes) and a read returns the first 22
  bytes of the echo: the flag is cleared and the loop returns with 22 of 42 bytes
  received, the rest of the script unread. In the second the first read returns no bytes
  (the peer has closed) and the loop keeps running with the socket still registered.
\<close>

theorem client_stop_condition_fails:
  "(\<exists>st. client_loop demo_outgoing
            [[(0, 2, [])], [(0, 2, [])], [(0, 2, [])], [(0, 1, ''This is the message.  '')],
             [(0, 1, ''It will be repeated.'')]] = Returned st \<and>
          \<not> keep_running st \<and> bytes_sent st = 42 \<and> bytes_received st = 22 \<and>
          last (trace st) = Recv 0 ''This is the message.  '') \<and>
   (\<exists>st. client_loop demo_outgoing [[(0, 1, [])]] = Unfinished st \<and>
          keep_running st \<and> trace st = [Poll, Recv 0 []] \<and> mysel st 0 \<noteq> None)"
  by (simp add: client_run_defs)

lemma dispatch_keeps_stopped:
  assumes "dispatch st key m p = Inr st'" and "\<not> keep_running st"
  shows "\<not> keep_running st'"
proof -
  obtain c i pl where key: "key = (c, i, pl)" by (cases key)
  from assms(1) key have "dispatch st (c, i, pl) m p = Inr st'" by simp
  then show ?thesis
  proof (cases rule: dispatch_cases)
    case accept
    from accept_effect(3) [OF accept(2)] assms(2) show ?thesis by simp
  next
    case data
    from read_data(3) [OF data(2,3)] assms(2) show ?thesis by simp
  next
    case eof
    from read_eof(3) [OF eof(2,3)] show ?thesis .
  qed
qed

lemma dispatch_eof_stops:
  assumes "dispatch st (c, i, Some cb_read) m p = Inr st'" and "snd p = []"
  shows "\<not> keep_running st'"
  using assms(1)
proof (cases rule: dispatch_cases)
  case accept
  then show ?thesis by simp
next
  case data
  with assms(2) show ?thesis by (simp add: recv_def)
next
  case eof
  from read_eof(3) [OF eof(2,3)] show ?thesis .
qed

lemma server_for_stops:
  "server_for rl st = Inr st' \<Longrightarrow>
   \<not> keep_running st \<or> ((c, i, Some cb_read), m, (True, [])) \<in> set rl \<Longrightarrow> \<not> keep_running st'"
proof (induction rl arbitrary: st)
  case Nil
  then show ?case by simp
next
  case (Cons e rest)
  obtain key mk p where e: "e = (key, mk, p)" by (cases e)
  from Cons.prems(1) e obtain st1 where d: "dispatch st key mk p = Inr st1"
    and r: "server_for rest st1 = Inr st'"
    by (auto split: sum.splits)
  have "\<not> keep_running st1 \<or> ((c, i, Some cb_read), m, (True, [])) \<in> set rest"
  proof (cases "\<not> keep_running st")
    case True
    from dispatch_keeps_stopped [OF d True] show ?thesis by simp
  next
    case False
    with Cons.prems(2) e have "(key, mk, p) = ((c, i, Some cb_read), m, (True, [])) \<or>
        ((c, i, Some cb_read), m, (True, [])) \<in> set rest" by auto
    then show ?thesis
    proof
      assume "(key, mk, p) = ((c, i, Some cb_read), m, (True, []))"
      with d dispatch_eof_stops [of st c i m p st1] show ?thesis by simp
    next
      assume "((c, i, Some cb_read), m, (True, [])) \<in> set rest"
      then show ?thesis by simp
    qed
  qed
  from Cons.IH [OF r this] show ?case .
qed

lemma server_terminates:
  assumes run: "server_main spre = Unfinished sst"
    and eof: "((c, i, Some cb_read), m, (True, [])) \<in> set (select (mysel sst) sready)"
    and peers: "list_all (\<lambda>e. fst (snd (snd e))) (select (mysel sst) sready)"
  shows "\<exists>sst'. server_main (spre @ sready # spost) = Returned sst' \<and> \<not> keep_running sst'"
proof -
  from run have inv: "server_inv sst"
    using server_main_inv [of spre sst] by simp
  from run have k: "keep_running sst"
    using server_unfinished_running [of spre server_init sst] by (simp add: server_main_eq)
  let ?st0 = "sst\<lparr>trace := trace sst @ [Poll]\<rparr>"
  have inv0: "server_inv ?st0" by (rule server_inv_poll [OF inv k])
  have ok: "ready_ok (select (mysel sst) sready) (mysel ?st0)"
    by (simp add: select_ready_ok)
  from server_for_succeeds [OF inv0 ok peers] obtain st1
    where f: "server_for (select (mysel sst) sready) ?st0 = Inr st1" by blast
  from server_for_stops [OF f] eof have stop: "\<not> keep_running st1" by blast
  have "server_main (spre @ sready # spost) = server_while (sready # spost) sst"
    using run by (simp add: server_main_eq server_while_append)
  also have "\<dots> = server_while spost st1"
    using k f by simp
  also have "\<dots> = Returned st1"
    by (rule server_while_stopped [OF stop])
  finally show ?thesis using stop by blast
qed

text \<open>The client's counters count the bytes of its trace.\<close>

lemma client_counts_poll:
  "client_counts st \<Longrightarrow> client_counts (st\<lparr>trace := trace st @ [Poll]\<rparr>)"
  by (auto simp: client_counts_def)

lemma client_event_counts:
  assumes cnt: "client_counts st" and k: "keep_running st"
    and e: "client_event st (sock, i, d) mk p = Inr st'"
  shows "client_counts st'"
proof -
  define s1 where "s1 =
    (if mk AND EVENT_READ \<noteq> 0 then client_read (st\<lparr>connection := Some sock\<rparr>) sock p
     else st\<lparr>connection := Some sock\<rparr>)"
  have c1: "client_counts s1"
    using cnt k by (auto simp: s1_def client_counts_def client_read_fields)
  from e have "st' = s1 \<or> client_write s1 = Inr st'"
    by (auto simp: client_event_def Let_def s1_def split: if_splits)
  then show ?thesis
  proof
    assume "st' = s1"
    with c1 show ?thesis by simp
  next
    assume w: "client_write s1 = Inr st'"
    show ?thesis
    proof (cases "outgoing s1 = []")
      case True
      with w c1 show ?thesis
        by (auto simp: client_write_def modify_def client_counts_def split: option.splits)
    next
      case False
      from w c1 show ?thesis
        unfolding client_write_send [OF False] by (auto simp: client_counts_def)
    qed
  qed
qed

lemma client_iteration_counts:
  assumes inv: "client_inv msgs st" and cnt: "client_counts st" and k: "keep_running st"
    and f: "client_for (select (mysel st) ready) (st\<lparr>trace := trace st @ [Poll]\<rparr>) = Inr st'"
  shows "client_counts st'"
proof -
  let ?st0 = "st\<lparr>trace := trace st @ [Poll]\<rparr>"
  have cnt0: "client_counts ?st0" by (rule client_counts_poll [OF cnt])
  have k0: "keep_running ?st0" using k by simp
  from client_inv_interest [OF inv] obtain i where reg: "mysel st = [sock \<mapsto> (i, None)]"
    by blast
  from select_single [of sock i None ready] show ?thesis
  proof
    assume "select [sock \<mapsto> (i, None)] ready = []"
    with f reg cnt0 show ?thesis by simp
  next
    assume "\<exists>m p. select [sock \<mapsto> (i, None)] ready = [((sock, i, None), m AND i, p)] \<and> m AND i \<noteq> 0"
    then obtain m p where "select (mysel st) ready = [((sock, i, None), m AND i, p)]"
      using reg by auto
    with f have "client_event ?st0 (sock, i, None) (m AND i) p = Inr st'"
      by (simp split: sum.splits)
    from client_event_counts [OF cnt0 k0 this] show ?thesis .
  qed
qed

lemma client_while_counts:
  "client_inv msgs st \<Longrightarrow> client_counts st \<Longrightarrow>
   state_of (client_while script st) = Some st' \<Longrightarrow> client_counts st'"
proof (induction script arbitrary: st)
  case Nil
  then show ?case by (simp split: if_splits)
next
  case (Cons ready script)
  show ?thesis
  proof (cases "keep_running st")
    case False
    with Cons.prems show ?thesis by simp
  next
    case True
    from client_iteration [OF Cons.prems(1), of ready] obtain st1
      where f: "client_for (select (mysel st) ready) (st\<lparr>trace := trace st @ [Poll]\<rparr>) = Inr st1"
        and inv1: "client_inv msgs st1" by blast
    from client_iteration_counts [OF Cons.prems(1,2) True f] have cnt1: "client_counts st1" .
    from Cons.prems(3) True f have "state_of (client_while script st1) = Some st'"
      by simp
    from Cons.IH [OF inv1 cnt1 this] show ?thesis .
  qed
qed

lemma client_loop_counts:
  assumes "state_of (client_loop msgs script) = Some st"
  shows "client_counts st"
proof -
  have "client_counts (client_init msgs)"
    by (simp add: client_counts_def client_init_def client_start_def)
  from client_while_counts [OF client_inv_init this] assms show ?thesis
    by (simp add: client_loop_eq)
qed

lemma client_terminates:
  assumes reach: "state_of (client_loop msgs cscript) = Some cst"
    and all: "bytes_received cst = bytes_sent cst"
    and pos: "0 < bytes_sent cst"
  shows "client_loop msgs cscript = Returned cst \<and> \<not> keep_running cst \<and>
         (\<exists>cst'. client_main msgs (cscript @ cpost) = Returned cst' \<and>
            \<not> keep_running cst' \<and>
            bytes_sent cst' = bytes_sent cst \<and> bytes_received cst' = bytes_sent cst \<and>
            mysel cst' sock = None \<and> sock \<in> closed_socks cst')"
proof -
  from client_loop_reaches [OF reach] have inv: "client_inv msgs cst" .
  from client_loop_counts [OF reach] all pos have stop: "\<not> keep_running cst"
    by (auto simp: client_counts_def)
  have loop: "client_loop msgs cscript = Returned cst"
  proof (cases "client_loop msgs cscript")
    case (Returned s)
    with reach show ?thesis by simp
  next
    case (Raised e)
    with reach show ?thesis by simp
  next
    case (Unfinished s)
    with reach have "s = cst" by simp
    with Unfinished client_unfinished_running [of cscript "client_init msgs" cst] stop
    show ?thesis by (simp add: client_loop_eq)
  qed
  then have loop': "client_loop msgs (cscript @ cpost) = Returned cst"
    by (simp add: client_loop_eq client_while_append)
  from inv stop have conn: "connection cst = Some sock"
    by (simp add: client_inv_def)
  from client_inv_interest [OF inv] obtain r where r: "mysel cst sock = Some r"
    by auto
  have "client_main msgs (cscript @ cpost) =
      Returned (cst\<lparr>mysel := (mysel cst)(sock := None),
                     closed_socks := insert sock (closed_socks cst),
                     trace := trace cst @ [Close sock]\<rparr>)"
    by (simp add: client_main_def loop' client_shutdown_def conn unregister_def r)
  with stop all loop show ?thesis by simp
qed

text \<open>
  Claim C5 (termination of the demo). The hypothesis of the claim is read off the two
  traces: the client has sent a positive number of bytes, the server has read on its
  connection exactly the bytes the client sent, and the client has received exactly the
  bytes the server wrote back. Then the client's counters agree, its loop has returned
  with the flag cleared, and the program ends with the socket unregistered and closed,
  whatever the operating system would report later. If moreover the server's loop is still
  running and the next poll reports the close of that connection (readable, the peer not
  reset, nothing pending) and no connection of that poll has been reset, then the server's
  loop returns with the flag cleared, no handler having raised, whatever would be reported
  later.
\<close>

theorem echo_demo_terminates:
  assumes "state_of (client_loop msgs cscript) = Some cst"
    and "0 < bytes_sent cst"
    and "server_main spre = Unfinished sst"
    and "received_on c (trace sst) = sent_on sock (trace cst)"
    and "received_on sock (trace cst) = sent_on c (trace sst)"
    and "((c, i, Some cb_read), m, (True, [])) \<in> set (select (mysel sst) sready)"
    and "list_all (\<lambda>e. fst (snd (snd e))) (select (mysel sst) sready)"
  shows "bytes_received cst = bytes_sent cst \<and>
         client_loop msgs cscript = Returned cst \<and> \<not> keep_running cst \<and>
         (\<exists>cst'. client_main msgs (cscript @ cpost) = Returned cst' \<and>
            \<not> keep_running cst' \<and>
            bytes_sent cst' = bytes_sent cst \<and> bytes_received cst' = bytes_sent cst \<and>
            mysel cst' sock = None \<and> sock \<in> closed_socks cst') \<and>
         (\<exists>sst'. server_main (spre @ sready # spost) = Returned sst' \<and> \<not> keep_running sst')"
proof -
  from assms(3) have "state_of (server_main spre) = Some sst" by simp
  from server_main_balanced [OF this] have "sent_on c (trace sst) = received_on c (trace sst)"
    by (simp add: balanced_def)
  with assms(4,5) have "received_on sock (trace cst) = sent_on sock (trace cst)"
    by simp
  moreover from client_loop_counts [OF assms(1)]
  have "bytes_sent cst = int (length (sent_on sock (trace cst)))"
    and "bytes_received cst = int (length (received_on sock (trace cst)))"
    by (simp_all add: client_counts_def)
  ultimately have all: "bytes_received cst = bytes_sent cst" by simp
  from client_terminates [OF assms(1) all assms(2), of cpost]
  have "client_loop msgs cscript = Returned cst \<and> \<not> keep_running cst \<and>
         (\<exists>cst'. client_main msgs (cscript @ cpost) = Returned cst' \<and>
            \<not> keep_running cst' \<and>
            bytes_sent cst' = bytes_sent cst \<and> bytes_received cst' = bytes_sent cst \<and>
            mysel cst' sock = None \<and> sock \<in> closed_socks cst')" .
  moreover from server_terminates [OF assms(3,6,7), of spost]
  have "\<exists>sst'. server_main (spre @ sready # spost) = Returned sst' \<and> \<not> keep_running sst'" .
  ultimately show ?thesis using all by blast
qed

theorem echo_demo_terminates_witness:
  "\<exists>cst sst.
     state_of (client_loop demo_outgoing
       [[(0, 2, [])], [(0, 2, [])], [(0, 2, [])],
        [(0, 1, ''This is the message.  It will be repeated.'')]]) = Some cst \<and>
     0 < bytes_sent cst \<and> bytes_sent cst = 42 \<and>
     server_main [[(0, 1, True, [])], [(1, 1, True, ''This is the message.  '')],
                  [(1, 1, True, ''It will be repeated.'')]] = Unfinished sst \<and>
     received_on 1 (trace sst) = sent_on sock (trace cst) \<and>
     received_on sock (trace cst) = sent_on 1 (trace sst) \<and>
     sent_on 1 (trace sst) = ''This is the message.  It will be repeated.'' \<and>
     ((1, EVENT_READ, Some cb_read), 1, (True, []))
       \<in> set (select (mysel sst) ([(1, 1, True, [])] :: server_ready)) \<and>
     list_all (\<lambda>e. fst (snd (snd e))) (select (mysel sst) ([(1, 1, True, [])] :: server_ready)) \<and>
     bytes_received cst = bytes_sent cst \<and>
     client_loop demo_outgoing
       [[(0, 2, [])], [(0, 2, [])], [(0, 2, [])],
        [(0, 1, ''This is the message.  It will be repeated.'')]] = Returned cst \<and>
     (\<exists>cst'. client_main demo_outgoing
         ([[(0, 2, [])], [(0, 2, [])], [(0, 2, [])],
           [(0, 1, ''This is the message.  It will be repeated.'')]] @ [[(0, 1, ''x'')]])
           = Returned cst' \<and>
        \<not> keep_running cst' \<and> mysel cst' sock = None \<and> sock \<in> closed_socks cst') \<and>
     (\<exists>sst'. server_main
         ([[(0, 1, True, [])], [(1, 1, True, ''This is the message.  '')],
           [(1, 1, True, ''It will be repeated.'')]] @
          [(1, 1, True, [])] # [[(0, 1, True, [])]]) = Returned sst' \<and> \<not> keep_running sst')"
proof -
  let ?echo = "''This is the message.  It will be repeated.''"
  let ?cscript = "[[(0, 2, [])], [(0, 2, [])], [(0, 2, [])], [(0, 1, ?echo)]] :: os_ready list"
  let ?spre = "[[(0, 1, True, [])], [(1, 1, True, ''This is the message.  '')],
                [(1, 1, True, ''It will be repeated.'')]] :: server_ready list"
  let ?sready = "[(1, 1, True, [])] :: server_ready"
  obtain cst where c0: "client_loop demo_outgoing ?cscript = Returned cst"
    and c2: "0 < bytes_sent cst" and c3: "bytes_sent cst = 42"
    and ctr: "trace cst = [Poll, Sendall 0 ''This is the message.  '', Poll,
        Sendall 0 ''It will be repeated.'', Poll, Modify 0 1, Poll, Recv 0 ?echo]"
    by (simp add: client_run_defs)
  from c0 have c1: "state_of (client_loop demo_outgoing ?cscript) = Some cst" by simp
  obtain sst where s1: "server_main ?spre = Unfinished sst"
    and s2: "((1, EVENT_READ, Some cb_read), 1, (True, [])) \<in> set (select (mysel sst) ?sready)"
    and s3: "list_all (\<lambda>e. fst (snd (snd e))) (select (mysel sst) ?sready)"
    and str: "trace sst = [Poll, Accept 0 1, Poll, Recv 1 ''This is the message.  '',
        Sendall 1 ''This is the message.  '', Poll, Recv 1 ''It will be repeated.'',
        Sendall 1 ''It will be repeated.'']"
    by (simp add: run_defs)
  have w1: "received_on 1 (trace sst) = sent_on sock (trace cst)"
    by (simp add: ctr str sock_def)
  have w2: "received_on sock (trace cst) = sent_on 1 (trace sst)"
    by (simp add: ctr str sock_def)
  have w3: "sent_on 1 (trace sst) = ?echo"
    by (simp add: str)
  from echo_demo_terminates [OF c1 c2 s1 w1 w2 s2 s3, of "[[(0, 1, ''x'')]]" "[[(0, 1, True, [])]]"]
  have "bytes_received cst = bytes_sent cst"
    and "client_loop demo_outgoing ?cscript = Returned cst"
    and "\<exists>cst'. client_main demo_outgoing (?cscript @ [[(0, 1, ''x'')]]) = Returned cst' \<and>
        \<not> keep_running cst' \<and> mysel cst' sock = None \<and> sock \<in> closed_socks cst'"
    and "\<exists>sst'. server_main (?spre @ ?sready # [[(0, 1, True, [])]]) = Returned sst' \<and>
        \<not> keep_running sst'"
    by blast+
  with c1 c2 c3 s1 s2 s3 w1 w2 w3 show ?thesis by blast
qed

end
